theory Spec2Isabelle
  imports Complex_Main
begin

section \<open>Python values used by blunt.py\<close>

text \<open>
  The exceptions the modelled code can raise.  Every raise of the source is a branch
  returning \<open>Inl\<close> of one of them.
\<close>

datatype py_error = TypeError | ValueError | ZeroDivisionError | IOError | RuntimeError
  | AttributeError

text \<open>
  Python floats are modelled by exact real numbers: \<open>+\<close>, \<open>-\<close>, \<open>*\<close>, \<open>/\<close> are exact here,
  where the interpreter rounds to binary64.  Concrete evaluations below are chosen so
  that every intermediate value that matters is exactly representable as a float.
\<close>

type_synonym py_float = real

definition py_int :: "py_float \<Rightarrow> int" where
  \<comment> \<open>\<open>int(x)\<close> of a float: truncation towards zero.\<close>
  "py_int x = (if 0 \<le> x then \<lfloor>x\<rfloor> else \<lceil>x\<rceil>)"

subsection \<open>Strings: split, float(), format\<close>

fun split_on :: "char \<Rightarrow> string \<Rightarrow> string list" where
  \<comment> \<open>\<open>s.split(sep)\<close> for a one-character separator.\<close>
  "split_on c [] = [[]]"
| "split_on c (x # xs) =
     (if x = c then [] # split_on c xs
      else (case split_on c xs of [] \<Rightarrow> [[x]] | w # ws \<Rightarrow> (x # w) # ws))"

definition is_digit :: "char \<Rightarrow> bool" where
  "is_digit c \<longleftrightarrow> 48 \<le> (of_char c :: nat) \<and> (of_char c :: nat) \<le> 57"

definition digit_val :: "char \<Rightarrow> nat" where
  "digit_val c = (of_char c :: nat) - 48"

definition nat_of_digits :: "string \<Rightarrow> nat" where
  "nat_of_digits ds = foldl (\<lambda>acc c. 10 * acc + digit_val c) 0 ds"

definition float_of_str :: "string \<Rightarrow> py_error + py_float" where
  \<comment> \<open>\<open>float(s)\<close> on decimal literals: an optional sign, digits, an optional point and
      digits, at least one digit in all.  Anything else is a \<open>ValueError\<close> here
      (exponents, \<open>inf\<close>, \<open>nan\<close> and surrounding blanks, which Python accepts, are not
      modelled).\<close>
  "float_of_str s =
     (let (neg, body) =
            (case s of
               [] \<Rightarrow> (False, s)
             | c # r \<Rightarrow> if c = CHR ''-'' then (True, r)
                        else if c = CHR ''+'' then (False, r) else (False, s));
          ip = takeWhile (\<lambda>c. c \<noteq> CHR ''.'') body;
          fp = (case dropWhile (\<lambda>c. c \<noteq> CHR ''.'') body of [] \<Rightarrow> [] | _ # f \<Rightarrow> f)
      in if ip @ fp \<noteq> [] \<and> list_all is_digit (ip @ fp)
         then Inr ((if neg then - 1 else 1) *
                   (of_nat (nat_of_digits (ip @ fp)) / 10 ^ length fp))
         else Inl ValueError)"

definition digit_char :: "nat \<Rightarrow> char" where
  "digit_char d = ''0123456789'' ! d"

fun str_nat :: "nat \<Rightarrow> string" where
  "str_nat n = (if n < 10 then [digit_char n] else str_nat (n div 10) @ [digit_char (n mod 10)])"

declare str_nat.simps [simp del]

definition zero_pad :: "nat \<Rightarrow> string \<Rightarrow> string" where
  \<comment> \<open>The \<open>0\<close> flag of a format spec: zeros on the left up to the minimum width.\<close>
  "zero_pad w s = replicate (w - length s) (CHR ''0'') @ s"

definition fmt_d :: "nat \<Rightarrow> int \<Rightarrow> string" where
  \<comment> \<open>\<open>"{:0wd}".format(i)\<close>; \<open>w = 0\<close> is the plain \<open>"{}"\<close>.  The sign counts in the
      width and stays in front of the padding.\<close>
  "fmt_d w i =
     (if i < 0 then CHR ''-'' # zero_pad (w - 1) (str_nat (nat (- i)))
      else zero_pad w (str_nat (nat i)))"

definition round_half_even :: "py_float \<Rightarrow> int" where
  "round_half_even x =
     (let f = \<lfloor>x\<rfloor>; d = x - of_int f
      in if d < 1 / 2 then f else if 1 / 2 < d then f + 1
         else if even f then f else f + 1)"

definition fmt_3f :: "nat \<Rightarrow> py_float \<Rightarrow> string" where
  \<comment> \<open>\<open>"{:0w.3f}".format(x)\<close>: three decimals, the whole field (sign, integer part,
      point and decimals) padded with zeros to at least \<open>w\<close> characters.\<close>
  "fmt_3f w x =
     (let m = nat (round_half_even (\<bar>x\<bar> * 1000));
          body = str_nat (m div 1000) @ CHR ''.'' # zero_pad 3 (str_nat (m mod 1000))
      in if x < 0 then CHR ''-'' # zero_pad (w - 1) body else zero_pad w body)"

section \<open>TimeStamp and VideoTime\<close>

record TimeStamp =
  hours :: py_float
  minutes :: py_float
  seconds :: py_float

record VideoTime = TimeStamp +
  fps :: py_float
  frame_number :: int

definition TimeStamp_str :: "'a TimeStamp_scheme \<Rightarrow> string" where
  \<comment> \<open>\<open>TimeStamp.__str__\<close>: \<open>"{}:{:02d}:{:02.3f}".format(hours, minutes, seconds)\<close>.\<close>
  "TimeStamp_str t =
     (let h = py_int (hours t);
          m = py_int (minutes t) - h * 60;
          s = seconds t - of_int h * 3600 - of_int m * 60
      in fmt_d 0 h @ CHR '':'' # fmt_d 2 m @ CHR '':'' # fmt_3f 2 s)"

text \<open>
  The argument of \<open>TimeStamp.__init__\<close> is a string, a \<open>TimeStamp\<close>, a \<open>VideoTime\<close>
  or anything else.  For a \<open>VideoTime\<close> the source takes \<open>str(e).split(" ")[0]\<close>, where
  \<open>str(e)\<close> is the \<open>TimeStamp.__str__\<close> text followed by \<open>" (<fps> frame/s)"\<close>; that text
  has no blank of its own, so the first field is the \<open>TimeStamp.__str__\<close> text.
\<close>

datatype time_arg = Str string | TS TimeStamp | VT VideoTime | Other

definition time_arg_text :: "time_arg \<Rightarrow> py_error + string" where
  "time_arg_text e =
     (case e of
        TS t \<Rightarrow> Inr (TimeStamp_str t)
      | VT t \<Rightarrow> Inr (TimeStamp_str t)
      | Str s \<Rightarrow> Inr s
      | Other \<Rightarrow> Inl TypeError)"

definition TimeStamp_of_text :: "string \<Rightarrow> py_error + TimeStamp" where
  \<comment> \<open>\<open>hours, minutes, seconds = map(float, e.split(":"))\<close> and the three fields.\<close>
  "TimeStamp_of_text s =
     (case split_on (CHR '':'') s of
        [a, b, c] \<Rightarrow>
          (case float_of_str a of Inl err \<Rightarrow> Inl err | Inr h \<Rightarrow>
          (case float_of_str b of Inl err \<Rightarrow> Inl err | Inr m \<Rightarrow>
          (case float_of_str c of Inl err \<Rightarrow> Inl err | Inr sec \<Rightarrow>
             Inr \<lparr>hours = h + m / 60 + sec / 3600,
                  minutes = h * 60 + m + sec / 60,
                  seconds = h * 3600 + m * 60 + sec\<rparr>)))
      | _ \<Rightarrow> Inl ValueError)"

definition TimeStamp_init :: "time_arg \<Rightarrow> py_error + TimeStamp" where
  "TimeStamp_init e =
     (case time_arg_text e of Inl err \<Rightarrow> Inl err | Inr s \<Rightarrow> TimeStamp_of_text s)"

definition VideoTime_init :: "time_arg \<Rightarrow> py_float \<Rightarrow> py_error + VideoTime" where
  \<comment> \<open>\<open>TimeStamp.__init__(self, e)\<close>, then \<open>frame_number = int(seconds * fps) + 1\<close>.\<close>
  "VideoTime_init e f =
     (case TimeStamp_init e of
        Inl err \<Rightarrow> Inl err
      | Inr t \<Rightarrow>
          Inr \<lparr>hours = hours t, minutes = minutes t, seconds = seconds t,
               fps = f, frame_number = py_int (seconds t * f) + 1\<rparr>)"

definition frame_videotime :: "int \<Rightarrow> py_float \<Rightarrow> py_error + VideoTime" where
  \<comment> \<open>Starts from \<open>VideoTime("0:0:0", fps)\<close> and overwrites the four fields;
      \<open>frame_number / float(fps)\<close> raises for \<open>fps = 0\<close>.\<close>
  "frame_videotime n f =
     (case VideoTime_init (Str ''0:0:0'') f of
        Inl err \<Rightarrow> Inl err
      | Inr t \<Rightarrow>
          if f = 0 then Inl ZeroDivisionError
          else Inr (t\<lparr>seconds := of_int n / f,
                      minutes := of_int n / f / 60,
                      hours := of_int n / f / 60 / 60,
                      frame_number := n\<rparr>))"

section \<open>The decode handle\<close>

type_synonym frame = "nat list list"

text \<open>
  \<open>cv2.VideoCapture\<close> is an external library object; what the reader relies on is
  modelled here.  The handle holds the frames of the file and a position counter, the
  property \<open>CAP_PROP_POS_FRAMES\<close> (number 1): the index of the frame that the next
  \<open>grab()\<close> decodes.  \<open>cam_base\<close> is the index of the first frame of the file (0 in
  OpenCV); it is a parameter so that results can be stated for either convention.
  \<open>grab()\<close> fails at the end of the file and on a released handle.  The reader calls
  \<open>retrieve()\<close> only after a successful \<open>grab()\<close>, so \<open>grab\<close> hands over the decoded
  frame together with the advanced handle.
\<close>

record VideoCapture =
  cam_frames :: "frame list"
  cam_fps :: py_float
  cam_base :: int
  cam_pos :: int
  cam_released :: bool

definition grab :: "VideoCapture \<Rightarrow> (frame \<times> VideoCapture) option" where
  "grab c =
     (let i = cam_pos c - cam_base c
      in if \<not> cam_released c \<and> 0 \<le> i \<and> i < int (length (cam_frames c))
         then Some (cam_frames c ! nat i, c\<lparr>cam_pos := cam_pos c + 1\<rparr>)
         else None)"

section \<open>VideoStream: the frame source\<close>

datatype 'pc thread = Initial | Alive 'pc | Finished

definition is_alive :: "'pc thread \<Rightarrow> bool" where
  "is_alive th = (case th of Alive _ \<Rightarrow> True | _ \<Rightarrow> False)"

text \<open>
  The program points of \<open>VideoStream.reader\<close>, one per statement that reads or writes
  state shared with the foreground thread.
\<close>

datatype reader_pc =
    L_while          \<comment> \<open>\<open>while not self.stopped.is_set()\<close>\<close>
  | L_full           \<comment> \<open>\<open>if not self.Q.full()\<close>\<close>
  | L_end_check      \<comment> \<open>\<open>if self.cap_position >= self.end.frame_number\<close>\<close>
  | L_getpos         \<comment> \<open>\<open>self.cap_position = self.camera.get(1)\<close>\<close>
  | L_after          \<comment> \<open>\<open>if self.after()\<close>\<close>
  | L_grab           \<comment> \<open>\<open>grab()\<close>, again until it succeeds, then \<open>retrieve()\<close>\<close>
  | L_put frame      \<comment> \<open>\<open>if not self.before(): self.Q.put(frame)\<close>\<close>
  | L_release        \<comment> \<open>\<open>self.camera.release()\<close>\<close>
  | L_set_released   \<comment> \<open>\<open>self.released.set()\<close>\<close>

text \<open>
  The fields of \<open>VideoStream\<close>.  \<open>fname\<close>, \<open>quiet\<close>, \<open>width\<close> and \<open>height\<close> are left out:
  no modelled statement reads them but the message written to stderr when a grab fails.
  \<open>vs_fps\<close>, \<open>vs_length\<close>, \<open>vs_end\<close> and \<open>vs_frame_number\<close> are the source's \<open>fps\<close>,
  \<open>length\<close>, \<open>end\<close> and \<open>frame_number\<close>.  \<open>vs_end\<close> is an option because \<open>after()\<close> tests
  \<open>self.end is not None\<close>.
\<close>

record VideoStream =
  camera :: VideoCapture
  vs_fps :: py_float
  vs_length :: int
  beginning :: VideoTime
  vs_end :: "VideoTime option"
  vs_frame_number :: nat
  cap_position :: int
  Q :: "frame list"
  stopped :: bool
  released :: bool
  t :: "reader_pc thread"

definition maxsize :: nat where
  \<comment> \<open>\<open>Queue(maxsize=128)\<close>\<close>
  "maxsize = 128"

definition beginning_time :: "py_float \<Rightarrow> time_arg option \<Rightarrow> py_error + VideoTime" where
  \<comment> \<open>\<open>set_beginning\<close>: \<open>if timestamp is None: timestamp = "0:0:0"\<close>, then
      \<open>VideoTime(timestamp, self.fps)\<close>.\<close>
  "beginning_time f a = VideoTime_init (case a of None \<Rightarrow> Str ''0:0:0'' | Some ts \<Rightarrow> ts) f"

definition end_time :: "int \<Rightarrow> py_float \<Rightarrow> time_arg option \<Rightarrow> py_error + VideoTime" where
  \<comment> \<open>\<open>set_end\<close>: \<open>frame_videotime(self.length, self.fps)\<close> for \<open>None\<close>, else
      \<open>VideoTime(timestamp, self.fps)\<close>.\<close>
  "end_time n f a = (case a of None \<Rightarrow> frame_videotime n f | Some ts \<Rightarrow> VideoTime_init ts f)"

definition set_beginning ::
    "time_arg option \<Rightarrow> 'a VideoStream_scheme \<Rightarrow> py_error + 'a VideoStream_scheme" where
  "set_beginning a s =
     (case beginning_time (vs_fps s) a of
        Inl err \<Rightarrow> Inl err
      | Inr b \<Rightarrow> Inr (s\<lparr>beginning := b, camera := (camera s)\<lparr>cam_pos := frame_number b\<rparr>\<rparr>))"

definition set_end ::
    "time_arg option \<Rightarrow> 'a VideoStream_scheme \<Rightarrow> py_error + 'a VideoStream_scheme" where
  "set_end a s =
     (case end_time (vs_length s) (vs_fps s) a of
        Inl err \<Rightarrow> Inl err
      | Inr e \<Rightarrow> Inr (s\<lparr>vs_end := Some e\<rparr>))"

definition VideoStream_init ::
    "VideoCapture \<Rightarrow> time_arg option \<Rightarrow> time_arg option \<Rightarrow> py_error + VideoStream" where
  \<comment> \<open>\<open>VideoStream.__init__\<close>, the opened capture standing for \<open>fname\<close>.\<close>
  "VideoStream_init cam b e =
     (let f = cam_fps cam; n = int (length (cam_frames cam))
      in case beginning_time f b of
           Inl err \<Rightarrow> Inl err
         | Inr bt \<Rightarrow>
             (case end_time n f e of
                Inl err \<Rightarrow> Inl err
              | Inr et \<Rightarrow>
                  Inr \<lparr>camera = cam\<lparr>cam_pos := frame_number bt\<rparr>,
                       vs_fps = f, vs_length = n, beginning = bt, vs_end = Some et,
                       vs_frame_number = 0, cap_position = frame_number bt,
                       Q = [], stopped = False, released = False, t = Initial\<rparr>))"

definition before :: "'a VideoStream_scheme \<Rightarrow> bool" where
  "before s \<longleftrightarrow> cap_position s < frame_number (beginning s)"

definition after :: "'a VideoStream_scheme \<Rightarrow> bool" where
  "after s \<longleftrightarrow> (case vs_end s of None \<Rightarrow> False | Some e \<Rightarrow> cap_position s \<ge> frame_number e)"

definition in_range :: "'a VideoStream_scheme \<Rightarrow> bool" where
  "in_range s \<longleftrightarrow> \<not> (before s \<and> after s)"

definition reader_step :: "'a VideoStream_scheme \<Rightarrow> 'a VideoStream_scheme" where
  \<comment> \<open>One statement of \<open>reader\<close>.  A state returned unchanged is a thread that is not
      running, spinning or blocked.  Reading \<open>self.end.frame_number\<close> with \<open>end\<close> absent
      is an uncaught \<open>AttributeError\<close>: the thread dies without releasing the camera.\<close>
  "reader_step s =
     (case t s of
        Alive L_while \<Rightarrow>
          if stopped s then s\<lparr>t := Alive L_release\<rparr> else s\<lparr>t := Alive L_full\<rparr>
      | Alive L_full \<Rightarrow>
          if maxsize \<le> length (Q s) then s\<lparr>t := Alive L_while\<rparr>
          else s\<lparr>t := Alive L_end_check\<rparr>
      | Alive L_end_check \<Rightarrow>
          (case vs_end s of
             None \<Rightarrow> s\<lparr>t := Finished\<rparr>
           | Some e \<Rightarrow>
               if cap_position s \<ge> frame_number e
               then s\<lparr>stopped := True, t := Alive L_release\<rparr>
               else s\<lparr>t := Alive L_getpos\<rparr>)
      | Alive L_getpos \<Rightarrow> s\<lparr>cap_position := cam_pos (camera s), t := Alive L_after\<rparr>
      | Alive L_after \<Rightarrow>
          if after s then s\<lparr>stopped := True, t := Alive L_release\<rparr>
          else s\<lparr>t := Alive L_grab\<rparr>
      | Alive L_grab \<Rightarrow>
          (case grab (camera s) of
             None \<Rightarrow> s
           | Some (f, cam) \<Rightarrow> s\<lparr>camera := cam, t := Alive (L_put f)\<rparr>)
      | Alive (L_put f) \<Rightarrow>
          if before s then s\<lparr>t := Alive L_while\<rparr>
          else if maxsize \<le> length (Q s) then s
          else s\<lparr>Q := Q s @ [f], t := Alive L_while\<rparr>
      | Alive L_release \<Rightarrow>
          s\<lparr>camera := (camera s)\<lparr>cam_released := True\<rparr>, t := Alive L_set_released\<rparr>
      | Alive L_set_released \<Rightarrow> s\<lparr>released := True, t := Finished\<rparr>
      | _ \<Rightarrow> s)"

subsection \<open>The foreground thread\<close>

datatype call = Start | Stop | Read | Set_beginning "time_arg option" | Set_end "time_arg option"

datatype result = Returned | Raised py_error | Frame frame | EndOfStream

text \<open>
  The program points of the foreground thread inside a call: \<open>stop()\<close> waiting in
  \<open>join()\<close>, and the four statements of \<open>read()\<close>.
\<close>

datatype main_pc =
    M_idle
  | M_join        \<comment> \<open>\<open>self.t.join()\<close>\<close>
  | R_qsize       \<comment> \<open>\<open>while not self.Q.qsize()\<close>\<close>
  | R_alive       \<comment> \<open>\<open>if not self.t.is_alive(): return\<close>\<close>
  | R_stopped     \<comment> \<open>\<open>if self.stopped.is_set(): return\<close>\<close>
  | R_get         \<comment> \<open>\<open>self.frame_number += 1; return self.Q.get()\<close>\<close>

text \<open>
  A run of a source: the object, the calls the foreground thread still has to make,
  where it is inside the current call, and what the finished calls returned.
\<close>

record source_run = VideoStream +
  script :: "call list"
  m_pc :: main_pc
  results :: "result list"

definition returns :: "result \<Rightarrow> source_run \<Rightarrow> source_run" where
  "returns r s = s\<lparr>m_pc := M_idle, results := results s @ [r]\<rparr>"

definition begin_call :: "call \<Rightarrow> source_run \<Rightarrow> source_run" where
  "begin_call c s =
     (case c of
        Start \<Rightarrow>
          (case t s of
             Initial \<Rightarrow> returns Returned (s\<lparr>t := Alive L_while\<rparr>)
           | _ \<Rightarrow> returns (Raised RuntimeError) s)
      | Stop \<Rightarrow>
          (case t s of
             Initial \<Rightarrow> returns (Raised RuntimeError) (s\<lparr>stopped := True\<rparr>)
           | _ \<Rightarrow> s\<lparr>stopped := True, m_pc := M_join\<rparr>)
      | Read \<Rightarrow> s\<lparr>m_pc := R_qsize\<rparr>
      | Set_beginning a \<Rightarrow>
          (case set_beginning a s of
             Inl err \<Rightarrow> returns (Raised err) s
           | Inr s' \<Rightarrow> returns Returned s')
      | Set_end a \<Rightarrow>
          (case set_end a s of
             Inl err \<Rightarrow> returns (Raised err) s
           | Inr s' \<Rightarrow> returns Returned s'))"

definition main_step :: "source_run \<Rightarrow> source_run" where
  \<comment> \<open>One statement of the foreground thread.  \<open>Q.get()\<close> on an empty queue blocks.\<close>
  "main_step s =
     (case m_pc s of
        M_idle \<Rightarrow> (case script s of [] \<Rightarrow> s | c # cs \<Rightarrow> begin_call c (s\<lparr>script := cs\<rparr>))
      | M_join \<Rightarrow> if t s = Finished then returns Returned s else s
      | R_qsize \<Rightarrow> if Q s = [] then s\<lparr>m_pc := R_alive\<rparr> else s\<lparr>m_pc := R_get\<rparr>
      | R_alive \<Rightarrow> if is_alive (t s) then s\<lparr>m_pc := R_stopped\<rparr> else returns EndOfStream s
      | R_stopped \<Rightarrow> if stopped s then returns EndOfStream s else s\<lparr>m_pc := R_qsize\<rparr>
      | R_get \<Rightarrow>
          (case Q s of
             [] \<Rightarrow> s
           | f # q \<Rightarrow>
               returns (Frame f) (s\<lparr>vs_frame_number := vs_frame_number s + 1, Q := q\<rparr>)))"

text \<open>
  The two threads interleave statement by statement; a schedule says whose turn it is.
\<close>

datatype actor = Main | Worker

definition step :: "actor \<Rightarrow> source_run \<Rightarrow> source_run" where
  "step a s = (case a of Main \<Rightarrow> main_step s | Worker \<Rightarrow> reader_step s)"

definition run :: "actor list \<Rightarrow> source_run \<Rightarrow> source_run" where
  "run sched s = fold step sched s"

definition open_source ::
    "VideoCapture \<Rightarrow> time_arg option \<Rightarrow> time_arg option \<Rightarrow> call list \<Rightarrow> py_error + source_run" where
  \<comment> \<open>A freshly constructed source together with the calls to be made on it.\<close>
  "open_source cam b e cs =
     (case VideoStream_init cam b e of
        Inl err \<Rightarrow> Inl err
      | Inr v \<Rightarrow> Inr (VideoStream.extend v \<lparr>script = cs, m_pc = M_idle, results = []\<rparr>))"

definition source_after ::
    "VideoCapture \<Rightarrow> time_arg option \<Rightarrow> time_arg option \<Rightarrow> call list \<Rightarrow> actor list
      \<Rightarrow> py_error + source_run" where
  \<comment> \<open>Construct a source and run the calls under the given schedule.\<close>
  "source_after cam b e cs sched =
     (case open_source cam b e cs of
        Inl err \<Rightarrow> Inl err
      | Inr s \<Rightarrow> Inr (run sched s))"

definition source_results ::
    "VideoCapture \<Rightarrow> time_arg option \<Rightarrow> time_arg option \<Rightarrow> call list \<Rightarrow> actor list
      \<Rightarrow> py_error + result list" where
  \<comment> \<open>What the calls have returned after the given schedule.\<close>
  "source_results cam b e cs sched = map_sum id results (source_after cam b e cs sched)"

subsection \<open>What holds in every state of a source read to its end\<close>

fun pending :: "reader_pc thread \<Rightarrow> frame list" where
  \<comment> \<open>The frame the reader has decoded and not yet put into the queue.\<close>
  "pending (Alive (L_put f)) = [f]"
| "pending _ = []"

fun positioned :: "reader_pc thread \<Rightarrow> bool" where
  \<comment> \<open>Between reading the position counter and grabbing.\<close>
  "positioned (Alive L_after) = True"
| "positioned (Alive L_grab) = True"
| "positioned _ = False"

definition frames_read :: "result list \<Rightarrow> frame list" where
  \<comment> \<open>The frames that calls of \<open>read()\<close> have returned.\<close>
  "frames_read rs = concat (map (\<lambda>r. case r of Frame f \<Rightarrow> [f] | _ \<Rightarrow> []) rs)"

definition plain_calls :: "call list \<Rightarrow> bool" where
  \<comment> \<open>Only \<open>start()\<close>, \<open>stop()\<close> and \<open>read()\<close>: the window is not moved.\<close>
  "plain_calls cs \<longleftrightarrow> list_all (\<lambda>c. c = Start \<or> c = Stop \<or> c = Read) cs"

definition reading_inv :: "frame list \<Rightarrow> int \<Rightarrow> int \<Rightarrow> source_run \<Rightarrow> bool" where
  \<comment> \<open>For a file \<open>frames\<close> whose first frame has index \<open>base\<close>, read from frame number
      \<open>bn\<close> to the end: the frames decoded so far are those at the positions from \<open>bn\<close> up
      to the position counter, and the counter does not pass the frame count.\<close>
  "reading_inv frames base bn s \<longleftrightarrow>
     cam_frames (camera s) = frames \<and> cam_base (camera s) = base
     \<and> frame_number (beginning s) = bn
     \<and> (\<exists>e. vs_end s = Some e \<and> frame_number e = int (length frames))
     \<and> bn \<le> cam_pos (camera s) \<and> cam_pos (camera s) \<le> max bn (int (length frames))
     \<and> frames_read (results s) @ Q s @ pending (t s)
         = map (\<lambda>p. frames ! nat (p - base)) [bn..cam_pos (camera s) - 1]
     \<and> (positioned (t s) \<longrightarrow> cap_position s = cam_pos (camera s))
     \<and> (t s = Alive L_grab \<longrightarrow> cam_pos (camera s) < int (length frames))
     \<and> (pending (t s) \<noteq> [] \<longrightarrow> bn \<le> cap_position s)
     \<and> plain_calls (script s)"

section \<open>VideoWriter and VideoCropper: the frame sinks\<close>

definition py_slice :: "int \<Rightarrow> int \<Rightarrow> 'a list \<Rightarrow> 'a list" where
  \<comment> \<open>\<open>xs[lo:hi]\<close>: a negative bound counts from the end, and both bounds are clipped
      to the sequence.\<close>
  "py_slice lo hi xs =
     (let n = int (length xs);
          a = (if lo < 0 then max 0 (lo + n) else min lo n);
          b = (if hi < 0 then max 0 (hi + n) else min hi n)
      in take (nat (b - a)) (drop (nat a) xs))"

definition crop_frame :: "int \<times> int \<times> int \<times> int \<Rightarrow> frame \<Rightarrow> frame" where
  \<comment> \<open>\<open>frame[self.y:self.y+self.h, self.x:self.x+self.w]\<close>\<close>
  "crop_frame r f = (case r of (x, y, w, h) \<Rightarrow> map (py_slice x (x + w)) (py_slice y (y + h) f))"

text \<open>
  The program points of \<open>VideoWriter.writer\<close>: the loop that runs while the sink is
  running, the loop that drains the queue, and the release of the encode handle.
\<close>

datatype writer_pc =
    W_while          \<comment> \<open>\<open>while self.running()\<close>\<close>
  | W_empty          \<comment> \<open>\<open>if not self.Q.empty()\<close>\<close>
  | W_get            \<comment> \<open>\<open>frame = self.Q.get(); self.frame_number += 1\<close>\<close>
  | W_write frame    \<comment> \<open>\<open>self.vw.write(frame)\<close>\<close>
  | D_empty          \<comment> \<open>\<open>while not self.Q.empty()\<close>\<close>
  | D_get            \<comment> \<open>\<open>frame = self.Q.get(); self.frame_number += 1\<close>\<close>
  | D_write frame    \<comment> \<open>\<open>self.vw.write(frame)\<close>\<close>
  | W_release        \<comment> \<open>\<open>self.vw.release()\<close>\<close>

text \<open>
  One record serves \<open>VideoWriter\<close> and its subclass \<open>VideoCropper\<close>, which adds the
  fields \<open>x\<close>, \<open>y\<close>, \<open>w\<close>, \<open>h\<close> and overrides \<open>write\<close>: \<open>cropper\<close> is \<open>None\<close> for a plain
  writer and holds the four fields for a cropper.  The encode handle \<open>self.vw\<close> (an
  external \<open>cv2.VideoWriter\<close>) is the list of frames passed to its \<open>write\<close> and whether
  it has been released.  \<open>fname\<close> and \<open>fourcc\<close> are only handed to the handle.
\<close>

record VideoWriter =
  dimension :: "int \<times> int"
  vw_fps :: py_float
  color :: bool
  vw_written :: "frame list"
  vw_released :: bool
  vw_Q :: "frame list"
  vw_stopped :: bool
  vw_t :: "writer_pc thread"
  vw_frame_number :: nat
  cropper :: "(int \<times> int \<times> int \<times> int) option"

definition VideoWriter_init ::
    "string \<Rightarrow> int \<Rightarrow> int \<Rightarrow> py_float \<Rightarrow> bool \<Rightarrow> py_error + VideoWriter" where
  \<comment> \<open>\<open>cv2.VideoWriter_fourcc(*fourcc)\<close> takes exactly four characters.\<close>
  "VideoWriter_init fourcc w h f col =
     (if length fourcc \<noteq> 4 then Inl TypeError
      else Inr \<lparr>dimension = (w, h), vw_fps = f, color = col, vw_written = [],
                vw_released = False, vw_Q = [], vw_stopped = False, vw_t = Initial,
                vw_frame_number = 0, cropper = None\<rparr>)"

definition VideoCropper_init ::
    "string \<Rightarrow> int \<Rightarrow> int \<Rightarrow> int \<Rightarrow> int \<Rightarrow> py_float \<Rightarrow> bool \<Rightarrow> py_error + VideoWriter" where
  \<comment> \<open>\<open>VideoWriter.__init__(self, fname, fourcc, w, h, fps, color)\<close>, then
      \<open>self.x, self.y = x, y\<close> and \<open>self.w, self.h = self.dimension\<close>.\<close>
  "VideoCropper_init fourcc x y w h f col =
     (case VideoWriter_init fourcc w h f col of
        Inl err \<Rightarrow> Inl err
      | Inr v \<Rightarrow> Inr (v\<lparr>cropper := Some (x, y, fst (dimension v), snd (dimension v))\<rparr>))"

definition queued_frame :: "'a VideoWriter_scheme \<Rightarrow> frame \<Rightarrow> frame" where
  \<comment> \<open>The argument of \<open>self.Q.put\<close> in \<open>write\<close>: the frame for a writer, the rectangle
      cut out of it for a cropper.\<close>
  "queued_frame s f = (case cropper s of None \<Rightarrow> f | Some r \<Rightarrow> crop_frame r f)"

definition writer_step :: "'a VideoWriter_scheme \<Rightarrow> 'a VideoWriter_scheme" where
  \<comment> \<open>One statement of \<open>writer\<close>.  \<open>Q.get()\<close> on an empty queue blocks.\<close>
  "writer_step s =
     (case vw_t s of
        Alive W_while \<Rightarrow>
          if vw_stopped s then s\<lparr>vw_t := Alive D_empty\<rparr> else s\<lparr>vw_t := Alive W_empty\<rparr>
      | Alive W_empty \<Rightarrow>
          if vw_Q s = [] then s\<lparr>vw_t := Alive W_while\<rparr> else s\<lparr>vw_t := Alive W_get\<rparr>
      | Alive W_get \<Rightarrow>
          (case vw_Q s of
             [] \<Rightarrow> s
           | f # q \<Rightarrow>
               s\<lparr>vw_Q := q, vw_frame_number := vw_frame_number s + 1, vw_t := Alive (W_write f)\<rparr>)
      | Alive (W_write f) \<Rightarrow> s\<lparr>vw_written := vw_written s @ [f], vw_t := Alive W_while\<rparr>
      | Alive D_empty \<Rightarrow>
          if vw_Q s = [] then s\<lparr>vw_t := Alive W_release\<rparr> else s\<lparr>vw_t := Alive D_get\<rparr>
      | Alive D_get \<Rightarrow>
          (case vw_Q s of
             [] \<Rightarrow> s
           | f # q \<Rightarrow>
               s\<lparr>vw_Q := q, vw_frame_number := vw_frame_number s + 1, vw_t := Alive (D_write f)\<rparr>)
      | Alive (D_write f) \<Rightarrow> s\<lparr>vw_written := vw_written s @ [f], vw_t := Alive D_empty\<rparr>
      | Alive W_release \<Rightarrow> s\<lparr>vw_released := True, vw_t := Finished\<rparr>
      | _ \<Rightarrow> s)"

subsection \<open>The foreground thread of a sink\<close>

datatype sink_call = Start_sink | Stop_sink | Write frame

text \<open>
  What the foreground thread has done, in order: \<open>Enqueued f\<close> is a \<open>write\<close> that
  returned, with the value it put into the queue; \<open>Failed e\<close> is a call that raised.
\<close>

datatype sink_event = Started | Stopped | Enqueued frame | Failed py_error

datatype sink_pc =
    S_idle
  | S_join          \<comment> \<open>\<open>self.t.join()\<close>\<close>
  | S_full frame    \<comment> \<open>\<open>while self.Q.full(): pass\<close>\<close>
  | S_put frame     \<comment> \<open>\<open>self.Q.put(...)\<close>\<close>

record sink_run = VideoWriter +
  sink_script :: "sink_call list"
  sink_pc :: sink_pc
  sink_log :: "sink_event list"

definition logs :: "sink_event \<Rightarrow> sink_run \<Rightarrow> sink_run" where
  "logs ev s = s\<lparr>sink_pc := S_idle, sink_log := sink_log s @ [ev]\<rparr>"

definition begin_sink_call :: "sink_call \<Rightarrow> sink_run \<Rightarrow> sink_run" where
  \<comment> \<open>\<open>start()\<close>; \<open>stop()\<close> up to its \<open>join()\<close>; the \<open>is_alive()\<close> test of \<open>write\<close>,
      which raises \<open>IOError("The writer is not ready")\<close>.\<close>
  "begin_sink_call c s =
     (case c of
        Start_sink \<Rightarrow>
          (case vw_t s of
             Initial \<Rightarrow> logs Started (s\<lparr>vw_t := Alive W_while\<rparr>)
           | _ \<Rightarrow> logs (Failed RuntimeError) s)
      | Stop_sink \<Rightarrow>
          (case vw_t s of
             Initial \<Rightarrow> logs (Failed RuntimeError) (s\<lparr>vw_stopped := True\<rparr>)
           | _ \<Rightarrow> s\<lparr>vw_stopped := True, sink_pc := S_join\<rparr>)
      | Write f \<Rightarrow>
          if is_alive (vw_t s) then s\<lparr>sink_pc := S_full f\<rparr> else logs (Failed IOError) s)"

definition sink_main_step :: "sink_run \<Rightarrow> sink_run" where
  \<comment> \<open>One statement of the foreground thread.  \<open>Q.put\<close> on a full queue blocks.\<close>
  "sink_main_step s =
     (case sink_pc s of
        S_idle \<Rightarrow>
          (case sink_script s of
             [] \<Rightarrow> s
           | c # cs \<Rightarrow> begin_sink_call c (s\<lparr>sink_script := cs\<rparr>))
      | S_join \<Rightarrow> if vw_t s = Finished then logs Stopped s else s
      | S_full f \<Rightarrow> if maxsize \<le> length (vw_Q s) then s else s\<lparr>sink_pc := S_put f\<rparr>
      | S_put f \<Rightarrow>
          if maxsize \<le> length (vw_Q s) then s
          else logs (Enqueued (queued_frame s f)) (s\<lparr>vw_Q := vw_Q s @ [queued_frame s f]\<rparr>))"

definition sink_step :: "actor \<Rightarrow> sink_run \<Rightarrow> sink_run" where
  "sink_step a s = (case a of Main \<Rightarrow> sink_main_step s | Worker \<Rightarrow> writer_step s)"

definition sink_steps :: "actor list \<Rightarrow> sink_run \<Rightarrow> sink_run" where
  "sink_steps sched s = fold sink_step sched s"

definition open_sink :: "VideoWriter \<Rightarrow> sink_call list \<Rightarrow> sink_run" where
  \<comment> \<open>A constructed sink together with the calls to be made on it.\<close>
  "open_sink v cs = VideoWriter.extend v \<lparr>sink_script = cs, sink_pc = S_idle, sink_log = []\<rparr>"

definition enqueued :: "sink_run \<Rightarrow> frame list" where
  \<comment> \<open>The frames accepted by \<open>write\<close> so far, in order.\<close>
  "enqueued s = concat (map (\<lambda>ev. case ev of Enqueued f \<Rightarrow> [f] | _ \<Rightarrow> []) (sink_log s))"

fun started_before_stop :: "sink_call list \<Rightarrow> bool" where
  \<comment> \<open>The calls do not stop the sink before they start it.\<close>
  "started_before_stop [] = True"
| "started_before_stop (Start_sink # cs) = True"
| "started_before_stop (Stop_sink # cs) = False"
| "started_before_stop (Write f # cs) = started_before_stop cs"

subsection \<open>What holds in every state of a sink run\<close>

fun in_flight :: "writer_pc thread \<Rightarrow> frame list" where
  \<comment> \<open>The frame the worker has taken from the queue and not yet passed to the handle.\<close>
  "in_flight (Alive (W_write f)) = [f]"
| "in_flight (Alive (D_write f)) = [f]"
| "in_flight _ = []"

fun draining :: "writer_pc thread \<Rightarrow> bool" where
  \<comment> \<open>The worker has left its first loop.\<close>
  "draining (Alive W_while) = False"
| "draining (Alive W_empty) = False"
| "draining (Alive W_get) = False"
| "draining (Alive (W_write f)) = False"
| "draining Initial = False"
| "draining _ = True"

fun getting :: "writer_pc thread \<Rightarrow> bool" where
  "getting (Alive W_get) = True"
| "getting (Alive D_get) = True"
| "getting _ = False"

fun writing :: "sink_pc \<Rightarrow> bool" where
  "writing (S_full f) = True"
| "writing (S_put f) = True"
| "writing _ = False"

definition sink_inv :: "sink_run \<Rightarrow> bool" where
  "sink_inv s \<longleftrightarrow>
     vw_written s @ in_flight (vw_t s) @ vw_Q s = enqueued s
     \<and> (writing (sink_pc s) \<longrightarrow> is_alive (vw_t s) \<and> \<not> vw_stopped s)
     \<and> (vw_stopped s \<longrightarrow> vw_t s \<noteq> Initial \<and> (sink_pc s = S_join \<or> vw_t s = Finished))
     \<and> (sink_pc s = S_join \<longrightarrow> vw_stopped s)
     \<and> (draining (vw_t s) \<longrightarrow> vw_stopped s)
     \<and> (vw_t s = Alive W_release \<or> vw_t s = Finished \<longrightarrow> vw_Q s = [])
     \<and> (getting (vw_t s) \<longrightarrow> vw_Q s \<noteq> [])
     \<and> (vw_t s = Initial \<longrightarrow> started_before_stop (sink_script s))
     \<and> (vw_released s \<longleftrightarrow> vw_t s = Finished)
     \<and> (Stopped \<in> set (sink_log s) \<longrightarrow> vw_t s = Finished)"

fun drain_steps :: "writer_pc thread \<Rightarrow> nat \<Rightarrow> nat" where
  \<comment> \<open>A bound on the statements the worker still executes once \<open>stopped\<close> is set, from
      its program point and the length of the queue.\<close>
  "drain_steps (Alive W_while) q = 3 * q + 3"
| "drain_steps (Alive W_empty) q = 3 * q + 4"
| "drain_steps (Alive W_get) q = 3 * q + 2"
| "drain_steps (Alive (W_write f)) q = 3 * q + 4"
| "drain_steps (Alive D_empty) q = 3 * q + 2"
| "drain_steps (Alive D_get) q = 3 * q + 1"
| "drain_steps (Alive (D_write f)) q = 3 * q + 3"
| "drain_steps (Alive W_release) q = 1"
| "drain_steps _ q = 0"

text \<open>
  Inside \<open>write(f)\<close>, after its \<open>is_alive()\<close> test has passed: the call is still at one of
  its two remaining statements and has logged nothing, or the first thing it logged is
  the frame it enqueued.
\<close>

definition in_write :: "frame \<Rightarrow> sink_event list \<Rightarrow> frame \<Rightarrow> sink_run \<Rightarrow> bool" where
  "in_write f l g s \<longleftrightarrow>
     ((sink_pc s = S_full f \<or> sink_pc s = S_put f) \<and> sink_log s = l \<and> queued_frame s f = g)
     \<or> (\<exists>more. sink_log s = l @ Enqueued g # more)"

section \<open>video_crop.py: writing to groups of croppers and rotating them at split times\<close>

text \<open>
  The script runs in the foreground thread and makes one call on a cropper at a time.
  Each call is taken here at its effect when it has returned: \<open>start()\<close> makes the worker
  alive, \<open>write(frame)\<close> has put the cut frame into the queue or raised, and \<open>stop()\<close>
  has waited until the worker has encoded everything in the queue and released the
  handle.  Between calls the frames accepted by a sink are those encoded together with
  those still in flight or queued; the bound of the queue, which only delays \<open>write\<close>,
  is not modelled here.
\<close>

definition call_start :: "VideoWriter \<Rightarrow> py_error + VideoWriter" where
  "call_start v =
     (case vw_t v of Initial \<Rightarrow> Inr (v\<lparr>vw_t := Alive W_while\<rparr>) | _ \<Rightarrow> Inl RuntimeError)"

definition call_write :: "frame \<Rightarrow> VideoWriter \<Rightarrow> py_error + VideoWriter" where
  "call_write f v =
     (if is_alive (vw_t v) then Inr (v\<lparr>vw_Q := vw_Q v @ [queued_frame v f]\<rparr>)
      else Inl IOError)"

definition drained :: "VideoWriter \<Rightarrow> VideoWriter" where
  "drained v =
     v\<lparr>vw_stopped := True,
       vw_written := vw_written v @ in_flight (vw_t v) @ vw_Q v,
       vw_frame_number := vw_frame_number v + length (vw_Q v),
       vw_Q := [], vw_t := Finished, vw_released := True\<rparr>"

definition call_stop :: "VideoWriter \<Rightarrow> py_error + VideoWriter" where
  "call_stop v = (case vw_t v of Initial \<Rightarrow> Inl RuntimeError | _ \<Rightarrow> Inr (drained v))"

definition received :: "VideoWriter \<Rightarrow> frame list" where
  \<comment> \<open>The frames a sink has accepted: encoded, in flight or queued.\<close>
  "received v = vw_written v @ in_flight (vw_t v) @ vw_Q v"

fun map_sinks ::
    "(VideoWriter \<Rightarrow> py_error + VideoWriter) \<Rightarrow> (string \<times> VideoWriter) list
      \<Rightarrow> py_error + (string \<times> VideoWriter) list" where
  \<comment> \<open>\<open>map(lambda cropper: cropper.m(), croppers)\<close>: the calls in order, up to the first
      that raises.  Each cropper is paired with the name of its output file.\<close>
  "map_sinks c [] = Inr []"
| "map_sinks c ((n, v) # rest) =
     (case c v of
        Inl err \<Rightarrow> Inl err
      | Inr v' \<Rightarrow>
          (case map_sinks c rest of
             Inl err \<Rightarrow> Inl err
           | Inr rest' \<Rightarrow> Inr ((n, v') # rest')))"

type_synonym crops = "(string \<times> int \<times> int \<times> int \<times> int) list"

fun get_croppers_array ::
    "crops \<Rightarrow> string \<Rightarrow> py_float \<Rightarrow> bool \<Rightarrow> string \<Rightarrow> py_error + (string \<times> VideoWriter) list" where
  \<comment> \<open>One \<open>VideoCropper(prefix + fname, fourcc, x, y, w, h, fps, color)\<close> for each entry
      of the table read by \<open>read_crops\<close> (a dict; the list is its iteration order).\<close>
  "get_croppers_array [] fourcc f col prefix = Inr []"
| "get_croppers_array ((fname, x, y, w, h) # rest) fourcc f col prefix =
     (case VideoCropper_init fourcc x y w h f col of
        Inl err \<Rightarrow> Inl err
      | Inr v \<Rightarrow>
          (case get_croppers_array rest fourcc f col prefix of
             Inl err \<Rightarrow> Inl err
           | Inr a \<Rightarrow> Inr ((prefix @ fname, v) # a)))"

text \<open>
  The variables of \<open>main\<close>: the options it reads, the current croppers, the part number
  \<open>j\<close>, the elapsed time.  \<open>finished\<close> is not a variable of the script: it lists the
  groups of croppers that have been stopped, that is, the output files already closed.
\<close>

record crop_run =
  crops_table :: crops
  opt_fourcc :: string
  opt_fps :: py_float
  opt_color :: bool
  opt_splits :: "TimeStamp list"
  croppers :: "(string \<times> VideoWriter) list"
  j :: nat
  elapsed_seconds :: py_float
  finished :: "(string \<times> VideoWriter) list list"

definition part_prefix :: "nat \<Rightarrow> string" where
  \<comment> \<open>\<open>"part" + str(j) + "_"\<close>\<close>
  "part_prefix k = ''part'' @ str_nat k @ ''_''"

definition rotate :: "crop_run \<Rightarrow> py_error + crop_run" where
  \<comment> \<open>The body of the \<open>if\<close> in the frame loop: stop the croppers, make and start those of
      the next part, drop the split.\<close>
  "rotate st =
     (case map_sinks call_stop (croppers st) of
        Inl err \<Rightarrow> Inl err
      | Inr old \<Rightarrow>
          (case get_croppers_array (crops_table st) (opt_fourcc st) (opt_fps st) (opt_color st)
                  (part_prefix (j st + 1)) of
             Inl err \<Rightarrow> Inl err
           | Inr new \<Rightarrow>
               (case map_sinks call_start new of
                  Inl err \<Rightarrow> Inl err
                | Inr new' \<Rightarrow>
                    Inr (st\<lparr>finished := finished st @ [old], j := j st + 1,
                            croppers := new', opt_splits := tl (opt_splits st)\<rparr>))))"

definition process_frame :: "py_float \<Rightarrow> frame \<Rightarrow> crop_run \<Rightarrow> py_error + crop_run" where
  \<comment> \<open>The body of \<open>for frame in stream\<close>, for a stream of rate \<open>fp\<close>.\<close>
  "process_frame fp f st =
     (if fp = 0 then Inl ZeroDivisionError
      else
        let st1 = st\<lparr>elapsed_seconds := elapsed_seconds st + 1 / fp\<rparr>
        in case (case opt_splits st1 of
                   [] \<Rightarrow> Inr st1
                 | ts # _ \<Rightarrow> if elapsed_seconds st1 \<ge> seconds ts then rotate st1 else Inr st1) of
             Inl err \<Rightarrow> Inl err
           | Inr st2 \<Rightarrow>
               (case map_sinks (call_write f) (croppers st2) of
                  Inl err \<Rightarrow> Inl err
                | Inr cs \<Rightarrow> Inr (st2\<lparr>croppers := cs\<rparr>)))"

fun consume :: "(py_float \<times> frame) list \<Rightarrow> crop_run \<Rightarrow> py_error + crop_run" where
  \<comment> \<open>The frame loops of \<open>main\<close> over all input files: each frame comes with the rate of
      the stream that yielded it.\<close>
  "consume [] st = Inr st"
| "consume ((fp, f) # rest) st =
     (case process_frame fp f st of Inl err \<Rightarrow> Inl err | Inr st' \<Rightarrow> consume rest st')"

definition start_run ::
    "crops \<Rightarrow> string \<Rightarrow> py_float \<Rightarrow> bool \<Rightarrow> TimeStamp \<Rightarrow> TimeStamp list \<Rightarrow> py_error + crop_run" where
  \<comment> \<open>\<open>main\<close> up to the loop over the input files.\<close>
  "start_run table fourcc f col start sp =
     (case get_croppers_array table fourcc f col (if sp \<noteq> [] then ''part1_'' else '''') of
        Inl err \<Rightarrow> Inl err
      | Inr a \<Rightarrow>
          (case map_sinks call_start a of
             Inl err \<Rightarrow> Inl err
           | Inr a' \<Rightarrow>
               Inr \<lparr>crops_table = table, opt_fourcc = fourcc, opt_fps = f, opt_color = col,
                    opt_splits = sp, croppers = a', j = 1, elapsed_seconds = seconds start,
                    finished = []\<rparr>))"

fun elapsed_after :: "py_float \<Rightarrow> (py_float \<times> frame) list \<Rightarrow> py_float" where
  \<comment> \<open>\<open>elapsed_seconds\<close> after the given frames.\<close>
  "elapsed_after e [] = e"
| "elapsed_after e ((fp, f) # rest) = elapsed_after (e + 1 / fp) rest"

fun no_split_reached :: "py_float \<Rightarrow> TimeStamp list \<Rightarrow> (py_float \<times> frame) list \<Rightarrow> bool" where
  \<comment> \<open>At none of the given frames has \<open>elapsed_seconds\<close> reached the next split.\<close>
  "no_split_reached e sp [] = True"
| "no_split_reached e sp ((fp, f) # rest) =
     ((case sp of [] \<Rightarrow> True | ts # _ \<Rightarrow> e + 1 / fp < seconds ts)
      \<and> no_split_reached (e + 1 / fp) sp rest)"

definition fed :: "frame list \<Rightarrow> VideoWriter \<Rightarrow> VideoWriter" where
  \<comment> \<open>A sink after \<open>write\<close> has accepted the given frames.\<close>
  "fed fs v = v\<lparr>vw_Q := vw_Q v @ map (queued_frame v) fs\<rparr>"

definition fresh_cropper ::
    "string \<Rightarrow> py_float \<Rightarrow> bool \<Rightarrow> string \<Rightarrow> string \<times> int \<times> int \<times> int \<times> int
      \<Rightarrow> string \<times> VideoWriter" where
  \<comment> \<open>The started cropper of one table entry, with its output name.\<close>
  "fresh_cropper fourcc f col prefix entry =
     (case entry of (fname, x, y, w, h) \<Rightarrow>
        (prefix @ fname,
         \<lparr>dimension = (w, h), vw_fps = f, color = col, vw_written = [], vw_released = False,
          vw_Q = [], vw_stopped = False, vw_t = Alive W_while, vw_frame_number = 0,
          cropper = Some (x, y, w, h)\<rparr>))"

definition group_counts :: "(string \<times> VideoWriter) list \<Rightarrow> (string \<times> nat) list" where
  \<comment> \<open>The output files of a group with the number of frames each has received.\<close>
  "group_counts g = map (\<lambda>(n, v). (n, length (received v))) g"

section \<open>Concrete inputs\<close>

definition three_frames :: "int \<Rightarrow> VideoCapture" where
  \<comment> \<open>A file of three one-pixel frames at 25 frames per second.\<close>
  "three_frames base =
     \<lparr>cam_frames = [[[0]], [[1]], [[2]]], cam_fps = 25, cam_base = base, cam_pos = base,
      cam_released = False\<rparr>"

definition opened_three_frames :: "int \<Rightarrow> call list \<Rightarrow> source_run" where
  \<comment> \<open>The source that \<open>VideoStream(fname)\<close> constructs on that file, with its calls.\<close>
  "opened_three_frames base cs =
    \<lparr>camera = \<lparr>cam_frames = [[[0]], [[1]], [[2]]], cam_fps = 25, cam_base = base, cam_pos = 1,
       cam_released = False\<rparr>,
     vs_fps = 25, vs_length = 3,
     beginning = \<lparr>hours = 0, minutes = 0, seconds = 0, fps = 25, frame_number = 1\<rparr>,
     vs_end = Some \<lparr>hours = 3 / 25 / 60 / 60, minutes = 3 / 25 / 60, seconds = 3 / 25, fps = 25,
       frame_number = 3\<rparr>,
     vs_frame_number = 0, cap_position = 1, Q = [], stopped = False, released = False,
     t = Initial, script = cs, m_pc = M_idle, results = []\<rparr>"

definition three_writes :: "sink_call list" where
  \<comment> \<open>\<open>with VideoOutput(...) as video\<close>, three frames written in the body.\<close>
  "three_writes = [Start_sink, Write [[1]], Write [[2]], Write [[3]], Stop_sink]"

definition plain_writer :: VideoWriter where
  \<comment> \<open>The sink that \<open>VideoWriter(fname, "MJPG", 1, 1, 25, True)\<close> constructs.\<close>
  "plain_writer =
     \<lparr>dimension = (1, 1), vw_fps = 25, color = True, vw_written = [], vw_released = False,
      vw_Q = [], vw_stopped = False, vw_t = Initial, vw_frame_number = 0, cropper = None\<rparr>"

definition after_stop :: sink_run where
  \<comment> \<open>A sink that has been started and stopped, about to be written to.\<close>
  "after_stop =
     sink_steps (replicate 2 Main @ replicate 3 Worker @ [Main])
       (open_sink plain_writer [Start_sink, Stop_sink, Write [[7]]])"

definition after_start :: sink_run where
  \<comment> \<open>A sink that has been started, about to be written to.\<close>
  "after_start = sink_steps [Main] (open_sink plain_writer [Start_sink, Write [[7]]])"

definition queue_full :: sink_run where
  \<comment> \<open>A started sink inside \<open>write\<close>, its queue holding 128 frames.\<close>
  "queue_full = after_start\<lparr>vw_Q := replicate 128 [[0]], sink_pc := S_full [[7]]\<rparr>"

definition frame100 :: frame where
  \<comment> \<open>A frame of 100 rows and 100 columns; the pixel in row \<open>r\<close>, column \<open>c\<close> is \<open>100 r + c\<close>.\<close>
  "frame100 = map (\<lambda>r. map (\<lambda>c. 100 * r + c) [0..<100]) [0..<100]"

definition cropper_10_50 :: VideoWriter where
  \<comment> \<open>The sink that \<open>VideoCropper(fname, "MJPG", 10, 10, 50, 50, 25, True)\<close> constructs.\<close>
  "cropper_10_50 = plain_writer\<lparr>dimension := (50, 50), cropper := Some (10, 10, 50, 50)\<rparr>"

definition cropper_writing :: sink_run where
  \<comment> \<open>That cropper, started, at the \<open>Q.put\<close> of \<open>write(frame100)\<close>.\<close>
  "cropper_writing =
     sink_steps [Main, Main, Main] (open_sink cropper_10_50 [Start_sink, Write frame100])"

definition one_tube :: crops where
  "one_tube = [(''tube1.avi'', 0, 0, 1, 1)]"

definition split_at_100ms :: TimeStamp where
  \<comment> \<open>\<open>TimeStamp("0:0:0.1")\<close>\<close>
  "split_at_100ms = \<lparr>hours = 1 / 36000, minutes = 1 / 600, seconds = 1 / 10\<rparr>"

definition four_frames :: "(py_float \<times> frame) list" where
  \<comment> \<open>Four frames from a stream of 25 frames per second.\<close>
  "four_frames = [(25, [[1]]), (25, [[2]]), (25, [[3]]), (25, [[4]])]"

definition one_tube_started :: crop_run where
  \<comment> \<open>\<open>main\<close> at the start of its frame loop, for one crop, start \<open>0:0:0\<close> and one
      split.\<close>
  "one_tube_started =
     \<lparr>crops_table = one_tube, opt_fourcc = ''MJPG'', opt_fps = 25, opt_color = True,
      opt_splits = [split_at_100ms],
      croppers = [fresh_cropper ''MJPG'' 25 True ''part1_'' (''tube1.avi'', 0, 0, 1, 1)],
      j = 1, elapsed_seconds = 0, finished = []\<rparr>"

section \<open>Evaluation of closed terms\<close>

lemma str_nat_small: "n < 10 \<Longrightarrow> str_nat n = [digit_char n]"
  by (subst str_nat.simps) simp

lemma str_nat_big: "10 \<le> n \<Longrightarrow> str_nat n = str_nat (n div 10) @ [digit_char (n mod 10)]"
  by (subst str_nat.simps) simp

lemma zero_pad_long: "w \<le> length s \<Longrightarrow> zero_pad w s = s"
  by (simp add: zero_pad_def)

lemma zero_pad_short: "length s < w \<Longrightarrow> zero_pad w s = CHR ''0'' # zero_pad (w - 1) s"
  by (cases "w - length s") (simp_all add: zero_pad_def Suc_diff_le)

lemma replicate_numeral_eval: "replicate (numeral k) x = x # replicate (pred_numeral k) x"
  by (simp add: numeral_eq_Suc)

lemmas parse_eval = TimeStamp_init_def time_arg_text_def TimeStamp_of_text_def float_of_str_def
  is_digit_def digit_val_def nat_of_digits_def

lemmas format_eval = TimeStamp_str_def py_int_def fmt_d_def fmt_3f_def round_half_even_def
  str_nat_small str_nat_big zero_pad_long zero_pad_short digit_char_def Let_def

lemmas source_eval = source_results_def source_after_def run_def step_def main_step_def reader_step_def begin_call_def returns_def
  is_alive_def grab_def before_def after_def maxsize_def replicate_numeral_eval
  opened_three_frames_def

lemma beginning_default:
  "beginning_time 25 None =
     Inr \<lparr>hours = 0, minutes = 0, seconds = 0, fps = 25, frame_number = 1\<rparr>"
  by (simp add: beginning_time_def VideoTime_init_def parse_eval py_int_def)

lemma end_default:
  "end_time 3 25 None =
     Inr \<lparr>hours = 3 / 25 / 60 / 60, minutes = 3 / 25 / 60, seconds = 3 / 25, fps = 25,
          frame_number = 3\<rparr>"
  by (simp add: end_time_def frame_videotime_def VideoTime_init_def parse_eval py_int_def)

lemma open_three_frames:
  "open_source (three_frames base) None None cs = Inr (opened_three_frames base cs)"
  by (simp add: open_source_def VideoStream_init_def three_frames_def beginning_default
      end_default VideoStream.defs source_run.defs opened_three_frames_def)

section \<open>TimeStamp and VideoTime: round trips\<close>

text \<open>
  C4.  Converting a frame index to a \<open>VideoTime\<close> with \<open>frame_videotime\<close> and building
  a \<open>VideoTime\<close> again from that value and the same rate should give the frame index
  back.  At index 25 and 25 frames per second it gives 26: \<open>frame_videotime\<close> stores
  \<open>seconds = 25 / 25 = 1\<close>, the text of that time is \<open>0:00:1.000\<close>, and
  \<open>VideoTime.__init__\<close> derives \<open>int(1 * 25) + 1 = 26\<close>.  Every value on the way is exact
  in binary floating point.
\<close>

theorem frame_videotime_roundtrip_25:
  "frame_videotime 25 25 =
     Inr \<lparr>hours = 1 / 3600, minutes = 1 / 60, seconds = 1, fps = 25, frame_number = 25\<rparr>
   \<and> TimeStamp_str \<lparr>hours = 1 / 3600, minutes = 1 / 60, seconds = 1, fps = 25,
         frame_number = 25\<rparr> = ''0:00:1.000''
   \<and> map_sum id frame_number
        (VideoTime_init
           (VT \<lparr>hours = 1 / 3600, minutes = 1 / 60, seconds = 1, fps = 25, frame_number = 25\<rparr>)
           25) = Inr 26"
proof (intro conjI)
  show "frame_videotime 25 25 =
     Inr \<lparr>hours = 1 / 3600, minutes = 1 / 60, seconds = 1, fps = 25, frame_number = 25\<rparr>"
    by (simp add: frame_videotime_def VideoTime_init_def parse_eval)
  show "TimeStamp_str \<lparr>hours = 1 / 3600, minutes = 1 / 60, seconds = 1, fps = 25,
         frame_number = 25\<rparr> = ''0:00:1.000''"
    by (simp add: format_eval)
  then show "map_sum id frame_number
        (VideoTime_init
           (VT \<lparr>hours = 1 / 3600, minutes = 1 / 60, seconds = 1, fps = 25, frame_number = 25\<rparr>)
           25) = Inr 26"
    by (simp add: VideoTime_init_def parse_eval py_int_def)
qed

text \<open>
  C8.  Parsing a timestamp of the form \<open>H:MM:SS.mmm\<close> and formatting it again should
  give a text of the same form, seconds padded to two digits.  For \<open>0:00:05.000\<close> the
  formatted text is \<open>0:00:5.000\<close>: in \<open>{:02.3f}\<close> the minimum width 2 counts the whole
  field, which has five characters already, so no zero is added.
\<close>

theorem timestamp_str_seconds_not_padded:
  "TimeStamp_init (Str ''0:00:05.000'') = Inr \<lparr>hours = 1 / 720, minutes = 1 / 12, seconds = 5\<rparr>
   \<and> TimeStamp_str \<lparr>hours = 1 / 720, minutes = 1 / 12, seconds = 5\<rparr> = ''0:00:5.000''"
proof
  show "TimeStamp_init (Str ''0:00:05.000'') =
      Inr \<lparr>hours = 1 / 720, minutes = 1 / 12, seconds = 5\<rparr>"
    by (simp add: parse_eval)
  show "TimeStamp_str \<lparr>hours = 1 / 720, minutes = 1 / 12, seconds = 5\<rparr> = ''0:00:5.000''"
    by (simp add: format_eval)
qed

section \<open>The source: windowing predicates and the end of the window\<close>

text \<open>
  C7.  In every state of a source, \<open>before()\<close> holds iff the position is below the
  frame number of the beginning, \<open>after()\<close> holds iff an end is set and the position has
  reached its frame number, and \<open>in_range()\<close> is the negation of the conjunction of the
  two.  That is not the conjunction of the negations: a state before the window is in
  range.
\<close>

theorem windowing_predicates:
  fixes s :: "'a VideoStream_scheme"
  shows "(before s \<longleftrightarrow> cap_position s < frame_number (beginning s))
    \<and> (after s \<longleftrightarrow> (\<exists>e. vs_end s = Some e \<and> frame_number e \<le> cap_position s))
    \<and> (in_range s \<longleftrightarrow> \<not> (before s \<and> after s))
    \<and> (\<exists>s' :: VideoStream. before s' \<and> in_range s' \<and> \<not> (\<not> before s' \<and> \<not> after s'))"
proof (intro conjI)
  show "before s \<longleftrightarrow> cap_position s < frame_number (beginning s)"
    by (simp add: before_def)
  show "after s \<longleftrightarrow> (\<exists>e. vs_end s = Some e \<and> frame_number e \<le> cap_position s)"
    by (cases "vs_end s") (simp_all add: after_def)
  show "in_range s \<longleftrightarrow> \<not> (before s \<and> after s)"
    by (simp add: in_range_def)
  let ?b = "\<lparr>hours = 0, minutes = 0, seconds = 0, fps = 25, frame_number = 1\<rparr>"
  let ?e = "\<lparr>hours = 0, minutes = 0, seconds = 2, fps = 25, frame_number = 51\<rparr>"
  let ?s = "\<lparr>camera = three_frames 0, vs_fps = 25, vs_length = 3, beginning = ?b,
      vs_end = Some ?e, vs_frame_number = 0, cap_position = 0, Q = [], stopped = False,
      released = False, t = Initial\<rparr>"
  have "before ?s \<and> in_range ?s \<and> \<not> (\<not> before ?s \<and> \<not> after ?s)"
    by (simp add: before_def after_def in_range_def)
  then show "\<exists>s' :: VideoStream. before s' \<and> in_range s' \<and> \<not> (\<not> before s' \<and> \<not> after s')"
    by blast
qed

subsection \<open>The end field is always set\<close>

lemma frame_videotime_fields:
  "frame_videotime n f = Inr et \<Longrightarrow> frame_number et = n \<and> seconds et = of_int n / f"
  by (auto simp: frame_videotime_def split: sum.splits if_splits)

lemma open_source_fields:
  assumes "open_source cam b e cs = Inr s0"
  shows "\<exists>et. end_time (int (length (cam_frames cam))) (cam_fps cam) e = Inr et
           \<and> vs_end s0 = Some et"
    and "vs_length s0 = int (length (cam_frames cam))"
    and "vs_fps s0 = cam_fps cam"
  using assms
  by (auto simp: open_source_def VideoStream_init_def Let_def VideoStream.defs
      split: sum.splits)

lemma reader_step_keeps:
  "vs_end (reader_step s) = vs_end s"
  "vs_length (reader_step s) = vs_length s"
  "vs_fps (reader_step s) = vs_fps s"
  by (simp_all add: reader_step_def split: thread.splits reader_pc.splits option.splits
      prod.splits)

lemma set_end_fields:
  "set_end a s = Inr s' \<Longrightarrow>
     vs_end s' \<noteq> None \<and> vs_length s' = vs_length s \<and> vs_fps s' = vs_fps s"
  by (auto simp: set_end_def split: sum.splits)

lemma set_beginning_fields:
  "set_beginning a s = Inr s' \<Longrightarrow>
     vs_end s' = vs_end s \<and> vs_length s' = vs_length s \<and> vs_fps s' = vs_fps s"
  by (auto simp: set_beginning_def split: sum.splits)

lemma begin_call_keeps:
  assumes "vs_end s \<noteq> None"
  shows "vs_end (begin_call c s) \<noteq> None"
    and "vs_length (begin_call c s) = vs_length s"
    and "vs_fps (begin_call c s) = vs_fps s"
  using assms
  by (auto simp: begin_call_def returns_def split: call.splits thread.splits sum.splits
      dest: set_end_fields set_beginning_fields)

lemma main_step_keeps:
  assumes "vs_end s \<noteq> None"
  shows "vs_end (main_step s) \<noteq> None"
    and "vs_length (main_step s) = vs_length s"
    and "vs_fps (main_step s) = vs_fps s"
  using assms begin_call_keeps [of "s\<lparr>script := tl (script s)\<rparr>" "hd (script s)"]
  by (auto simp: main_step_def returns_def split: main_pc.splits list.splits)

lemma step_keeps:
  assumes "vs_end s \<noteq> None"
  shows "vs_end (step a s) \<noteq> None"
    and "vs_length (step a s) = vs_length s"
    and "vs_fps (step a s) = vs_fps s"
  using assms by (cases a; simp add: step_def reader_step_keeps main_step_keeps)+

lemma run_keeps:
  "vs_end s \<noteq> None \<Longrightarrow>
     vs_end (run sched s) \<noteq> None \<and> vs_length (run sched s) = vs_length s
     \<and> vs_fps (run sched s) = vs_fps s"
proof (induction sched arbitrary: s)
  case Nil
  then show ?case by (simp add: run_def)
next
  case (Cons a sched)
  from Cons.prems have "vs_end (step a s) \<noteq> None"
    by (rule step_keeps)
  from Cons.IH [OF this] show ?case
    using Cons.prems by (simp add: run_def step_keeps)
qed

text \<open>
  C10.  The \<open>end\<close> field of a source is never \<open>None\<close>: the constructor and \<open>set_end\<close>
  called without a timestamp store the \<open>VideoTime\<close> of the file's frame count, and no
  statement of either thread removes it.  So \<open>after()\<close> is the plain comparison with the
  end's frame number in every state a run can reach, and \<open>set_end(None)\<close> made in such a
  state yields an end whose frame number is the frame count of the file.
\<close>

theorem end_never_None:
  assumes "open_source cam b e cs = Inr s0"
  shows "(\<exists>et. vs_end (run sched s0) = Some et
            \<and> (after (run sched s0) \<longleftrightarrow> frame_number et \<le> cap_position (run sched s0)))
    \<and> (e = None \<longrightarrow>
         (\<exists>et. vs_end s0 = Some et \<and> frame_number et = int (length (cam_frames cam))))
    \<and> (\<forall>s'. set_end None (run sched s0) = Inr s' \<longrightarrow>
         (\<exists>et. vs_end s' = Some et \<and> frame_number et = int (length (cam_frames cam))))"
proof (intro conjI)
  from open_source_fields [OF assms] obtain et0
    where et0: "end_time (int (length (cam_frames cam))) (cam_fps cam) e = Inr et0"
      and s0: "vs_end s0 = Some et0" "vs_length s0 = int (length (cam_frames cam))"
    by blast
  from s0 have inv: "vs_end (run sched s0) \<noteq> None"
      "vs_length (run sched s0) = int (length (cam_frames cam))"
    using run_keeps [of s0 sched] by simp_all
  then obtain et where et: "vs_end (run sched s0) = Some et"
    by blast
  then show "\<exists>et. vs_end (run sched s0) = Some et
      \<and> (after (run sched s0) \<longleftrightarrow> frame_number et \<le> cap_position (run sched s0))"
    by (simp add: after_def)
  show "e = None \<longrightarrow>
      (\<exists>et. vs_end s0 = Some et \<and> frame_number et = int (length (cam_frames cam)))"
    using et0 s0 by (auto simp: end_time_def dest: frame_videotime_fields)
  show "\<forall>s'. set_end None (run sched s0) = Inr s' \<longrightarrow>
      (\<exists>et. vs_end s' = Some et \<and> frame_number et = int (length (cam_frames cam)))"
    using inv(2)
    by (auto simp: set_end_def end_time_def split: sum.splits dest: frame_videotime_fields)
qed

theorem end_never_None_witness:
  "open_source (three_frames 0) None None [Start, Read] = Inr (opened_three_frames 0 [Start, Read])
   \<and> (\<exists>et. vs_end (run [Main, Worker, Main] (opened_three_frames 0 [Start, Read])) = Some et
         \<and> (after (run [Main, Worker, Main] (opened_three_frames 0 [Start, Read]))
              \<longleftrightarrow> frame_number et
                  \<le> cap_position (run [Main, Worker, Main] (opened_three_frames 0 [Start, Read]))))
   \<and> (\<exists>et. vs_end (opened_three_frames 0 [Start, Read]) = Some et \<and> frame_number et = 3)
   \<and> (\<exists>s' et. set_end None (run [Main, Worker, Main] (opened_three_frames 0 [Start, Read]))
                 = Inr s' \<and> vs_end s' = Some et \<and> frame_number et = 3)"
proof -
  let ?s0 = "opened_three_frames 0 [Start, Read]"
  have o: "open_source (three_frames 0) None None [Start, Read] = Inr ?s0"
    by (rule open_three_frames)
  have n: "int (length (cam_frames (three_frames 0))) = 3"
    by (simp add: three_frames_def)
  have "\<exists>s'. set_end None (run [Main, Worker, Main] ?s0) = Inr s'"
    by (simp add: source_eval set_end_def end_default)
  with end_never_None [OF o, of "[Main, Worker, Main]"] o show ?thesis
    unfolding n by blast
qed

section \<open>The source: what read() returns\<close>

text \<open>
  Once the reader thread has finished and the queue is empty, \<open>read()\<close> returns
  \<open>EndOfStream\<close> after three statements of the foreground thread, whatever the reader is
  scheduled to do in between, and leaves the source as it was.
\<close>

lemma reader_step_Finished: "t s = Finished \<Longrightarrow> reader_step s = s"
  by (simp add: reader_step_def)

lemma read_when_exhausted:
  assumes "t s = Finished" and "Q s = []" and "m_pc s = M_idle" and "script s = Read # cs"
  shows "run [Main, Main, Main] s = s\<lparr>script := cs, results := results s @ [EndOfStream]\<rparr>"
  using assms
  by (simp add: run_def step_def main_step_def begin_call_def returns_def is_alive_def)

theorem reads_when_exhausted:
  assumes "t s = Finished" and "Q s = []" and "m_pc s = M_idle"
    and "script s = replicate n Read @ cs"
  shows "run (concat (replicate n [Main, Main, Main])) s =
           s\<lparr>script := cs, results := results s @ replicate n EndOfStream\<rparr>"
  using assms
proof (induction n arbitrary: s)
  case 0
  then show ?case by (simp add: run_def)
next
  case (Suc n)
  let ?s1 = "s\<lparr>script := replicate n Read @ cs, results := results s @ [EndOfStream]\<rparr>"
  from Suc.prems have one: "run [Main, Main, Main] s = ?s1"
    by (simp add: read_when_exhausted)
  have "run (concat (replicate (Suc n) [Main, Main, Main])) s =
      run (concat (replicate n [Main, Main, Main])) (run [Main, Main, Main] s)"
    by (simp add: run_def)
  also have "\<dots> = run (concat (replicate n [Main, Main, Main])) ?s1"
    by (simp only: one)
  also have "\<dots> = ?s1\<lparr>script := cs, results := results ?s1 @ replicate n EndOfStream\<rparr>"
    using Suc.prems by (intro Suc.IH) simp_all
  also have "\<dots> = s\<lparr>script := cs, results := results s @ replicate (Suc n) EndOfStream\<rparr>"
    by (simp add: replicate_app_Cons_same)
  finally show ?case .
qed

theorem reads_when_exhausted_witness:
  "t (run (Main # replicate 21 Worker @ replicate 6 Main)
        (opened_three_frames 0 [Start, Read, Read, Read, Read, Read])) = Finished
   \<and> Q (run (Main # replicate 21 Worker @ replicate 6 Main)
        (opened_three_frames 0 [Start, Read, Read, Read, Read, Read])) = []
   \<and> results (run (concat (replicate 3 [Main, Main, Main]))
        (run (Main # replicate 21 Worker @ replicate 6 Main)
          (opened_three_frames 0 [Start, Read, Read, Read, Read, Read])))
       = [Returned, Frame [[1]], Frame [[2]], EndOfStream, EndOfStream, EndOfStream]"
proof -
  let ?s = "run (Main # replicate 21 Worker @ replicate 6 Main)
      (opened_three_frames 0 [Start, Read, Read, Read, Read, Read])"
  have s: "t ?s = Finished" "Q ?s = []" "m_pc ?s = M_idle"
      "script ?s = replicate 3 Read @ []"
      "results ?s = [Returned, Frame [[1]], Frame [[2]]]"
    by (simp_all add: source_eval)
  from reads_when_exhausted [OF s(1-4)] s(1,2,5) show ?thesis
    by (simp add: replicate_numeral_eval)
qed

text \<open>
  C3.  \<open>read()\<close> should return \<open>EndOfStream\<close> only when the reader has stopped and the
  queue is empty, and the next queued frame otherwise.  On a file of three frames, with
  the reader in the background: the first \<open>read()\<close> returns frame 1; the second finds
  the queue empty; the reader then enqueues frame 2, finds the window exhausted and sets
  \<open>stopped\<close>; the second \<open>read()\<close> goes on to test \<open>stopped\<close> and returns
  \<open>EndOfStream\<close> while frame 2 is in the queue.  A third \<open>read()\<close> returns that frame.
\<close>

theorem read_EndOfStream_with_frame_queued:
  "map_sum id (\<lambda>s. (results s, Q s, stopped s))
     (source_after (three_frames 0) None None [Start, Read, Read, Read]
        (Main # replicate 7 Worker @ replicate 3 Main @ replicate 6 Worker @ replicate 2 Main
          @ replicate 6 Worker @ replicate 2 Main))
     = Inr ([Returned, Frame [[1]], EndOfStream], [[[2]]], True)
   \<and> source_results (three_frames 0) None None [Start, Read, Read, Read]
        (Main # replicate 7 Worker @ replicate 3 Main @ replicate 6 Worker @ replicate 2 Main
          @ replicate 6 Worker @ replicate 2 Main @ replicate 3 Main)
     = Inr [Returned, Frame [[1]], EndOfStream, Frame [[2]]]"
  by (simp add: open_three_frames source_eval)

section \<open>The source: how many frames a whole file yields\<close>

lemma reader_thread_cases:
  obtains "th = Initial" | "th = Finished" | "th = Alive L_while" | "th = Alive L_full"
    | "th = Alive L_end_check" | "th = Alive L_getpos" | "th = Alive L_after"
    | "th = Alive L_grab" | f where "th = Alive (L_put f)" | "th = Alive L_release"
    | "th = Alive L_set_released"
proof (cases th)
  case (Alive pc)
  then show ?thesis by (cases pc) (use that in auto)
qed (use that in auto)

lemma upto_snoc: "i \<le> k + 1 \<Longrightarrow> [i..k + 1] = [i..k] @ [k + 1]"
  by (simp add: upto_rec2)

lemma reader_step_reading_inv:
  assumes "reading_inv frames base bn s"
  shows "reading_inv frames base bn (reader_step s)"
proof (cases "t s" rule: reader_thread_cases)
  case 8
  show ?thesis
  proof (cases "grab (camera s)")
    case None
    with 8 assms show ?thesis by (simp add: reader_step_def)
  next
    case (Some a)
    then obtain f cam where a: "grab (camera s) = Some (f, cam)" by (cases a) auto
    then have f: "f = frames ! nat (cam_pos (camera s) - base)"
      and cam: "cam = (camera s)\<lparr>cam_pos := cam_pos (camera s) + 1\<rparr>"
      using assms by (auto simp: grab_def reading_inv_def Let_def split: if_splits)
    from assms 8 have pos: "bn \<le> cam_pos (camera s)" "cam_pos (camera s) < int (length frames)"
      "cap_position s = cam_pos (camera s)"
      by (simp_all add: reading_inv_def)
    then have "[bn..cam_pos (camera s) + 1 - 1] = [bn..cam_pos (camera s) - 1] @ [cam_pos (camera s)]"
      using upto_snoc [of bn "cam_pos (camera s) - 1"] by simp
    with assms 8 a pos show ?thesis
      by (simp add: reader_step_def reading_inv_def f cam)
  qed
qed (use assms in \<open>auto simp: reader_step_def reading_inv_def after_def before_def split: if_splits\<close>)

lemma frames_read_append [simp]:
  "frames_read (rs @ [r]) = frames_read rs @ (case r of Frame f \<Rightarrow> [f] | _ \<Rightarrow> [])"
  by (simp add: frames_read_def)

lemma main_step_reading_inv:
  assumes "reading_inv frames base bn s"
  shows "reading_inv frames base bn (main_step s)"
proof (cases "m_pc s")
  case M_idle
  show ?thesis
  proof (cases "script s")
    case Nil
    with M_idle assms show ?thesis by (simp add: main_step_def)
  next
    case (Cons c cs)
    with assms have "c = Start \<or> c = Stop \<or> c = Read" and "plain_calls cs"
      by (simp_all add: reading_inv_def plain_calls_def)
    with M_idle Cons assms show ?thesis
      by (cases "t s" rule: reader_thread_cases)
         (auto simp: main_step_def begin_call_def returns_def reading_inv_def)
  qed
next
  case R_get
  with assms show ?thesis
    by (cases "Q s") (auto simp: main_step_def returns_def reading_inv_def)
qed (use assms in \<open>auto simp: main_step_def returns_def reading_inv_def\<close>)

lemma run_reading_inv:
  "reading_inv frames base bn s \<Longrightarrow> reading_inv frames base bn (run sched s)"
proof (induction sched arbitrary: s)
  case Nil
  then show ?case by (simp add: run_def)
next
  case (Cons a sched)
  have "reading_inv frames base bn (step a s)"
    using Cons.prems
    by (cases a) (simp_all add: step_def main_step_reading_inv reader_step_reading_inv)
  from Cons.IH [OF this] show ?case by (simp add: run_def)
qed

lemma open_source_reading_inv:
  assumes "open_source cam b None cs = Inr s0" and "plain_calls cs"
  shows "reading_inv (cam_frames cam) (cam_base cam) (frame_number (beginning s0)) s0"
  using assms
  by (auto simp: open_source_def VideoStream_init_def Let_def VideoStream.defs reading_inv_def
      end_time_def frames_read_def split: sum.splits dest: frame_videotime_fields)

text \<open>
  A source opened without an end and only started, read and stopped never yields more
  than \<open>frame_count - begin_index\<close> frames, under any schedule, and what it yields are
  the frames of the file from position \<open>begin_index\<close> on.
\<close>

theorem source_yields_at_most:
  assumes "open_source cam b None cs = Inr s0" and "plain_calls cs"
  shows "length (frames_read (results (run sched s0)))
           \<le> nat (int (length (cam_frames cam)) - frame_number (beginning s0))
    \<and> (\<exists>k. frames_read (results (run sched s0))
           = take k (map (\<lambda>p. cam_frames cam ! nat (p - cam_base cam))
               [frame_number (beginning s0)..int (length (cam_frames cam)) - 1]))"
proof (intro conjI)
  let ?s = "run sched s0" and ?bn = "frame_number (beginning s0)"
    and ?n = "int (length (cam_frames cam))"
  let ?at = "\<lambda>p. cam_frames cam ! nat (p - cam_base cam)"
  have "reading_inv (cam_frames cam) (cam_base cam) ?bn ?s"
    using assms by (intro run_reading_inv open_source_reading_inv)
  then have eq: "frames_read (results ?s) @ Q ?s @ pending (t ?s)
        = map ?at [?bn..cam_pos (camera ?s) - 1]"
    and le: "cam_pos (camera ?s) \<le> max ?bn ?n" and ge: "?bn \<le> cam_pos (camera ?s)"
    by (simp_all add: reading_inv_def)
  have "length (frames_read (results ?s))
      \<le> length (frames_read (results ?s) @ Q ?s @ pending (t ?s))"
    by simp
  also have "\<dots> = nat (cam_pos (camera ?s) - ?bn)"
    unfolding eq by simp
  also have "\<dots> \<le> nat (?n - ?bn)"
    using le by simp
  finally show "length (frames_read (results ?s)) \<le> nat (?n - ?bn)" .
  show "\<exists>k. frames_read (results ?s) = take k (map ?at [?bn..?n - 1])"
  proof (cases "cam_pos (camera ?s) \<le> ?n")
    case True
    with ge have "[?bn..?n - 1] = [?bn..cam_pos (camera ?s) - 1] @ [cam_pos (camera ?s)..?n - 1]"
      using upto_split2 [of ?bn "cam_pos (camera ?s) - 1" "?n - 1"]
      by (cases "cam_pos (camera ?s) = ?bn") simp_all
    then have "map ?at [?bn..?n - 1]
        = frames_read (results ?s)
          @ (Q ?s @ pending (t ?s) @ map ?at [cam_pos (camera ?s)..?n - 1])"
      using eq by simp
    then have "frames_read (results ?s)
        = take (length (frames_read (results ?s))) (map ?at [?bn..?n - 1])"
      by simp
    then show ?thesis by blast
  next
    case False
    with le ge have "cam_pos (camera ?s) = ?bn" by (simp add: max_def split: if_splits)
    with eq have "frames_read (results ?s) = take 0 (map ?at [?bn..?n - 1])"
      by simp
    then show ?thesis by blast
  qed
qed

theorem source_yields_at_most_witness:
  "open_source (three_frames 0) None None [Start, Read, Read, Read]
     = Inr (opened_three_frames 0 [Start, Read, Read, Read])
   \<and> plain_calls [Start, Read, Read, Read]
   \<and> frames_read (results (run (Main # replicate 21 Worker @ replicate 9 Main)
        (opened_three_frames 0 [Start, Read, Read, Read]))) = [[[1]], [[2]]]
   \<and> length (frames_read (results (run (Main # replicate 21 Worker @ replicate 9 Main)
        (opened_three_frames 0 [Start, Read, Read, Read]))))
       \<le> nat (int (length (cam_frames (three_frames 0))) - 1)
   \<and> (\<exists>k. frames_read (results (run (Main # replicate 21 Worker @ replicate 9 Main)
        (opened_three_frames 0 [Start, Read, Read, Read]))) = take k [[[1]], [[2]]])"
proof -
  let ?cs = "[Start, Read, Read, Read]"
  let ?sched = "Main # replicate 21 Worker @ replicate 9 Main"
  have calls: "plain_calls ?cs"
    by (simp add: plain_calls_def)
  have bn: "frame_number (beginning (opened_three_frames 0 ?cs)) = 1"
    by (simp add: opened_three_frames_def)
  have all_frames: "map (\<lambda>p. cam_frames (three_frames 0) ! nat (p - cam_base (three_frames 0)))
      [1..int (length (cam_frames (three_frames 0))) - 1] = [[[1]], [[2]]]"
    by (simp add: three_frames_def upto_rec1)
  have read: "frames_read (results (run ?sched (opened_three_frames 0 ?cs))) = [[[1]], [[2]]]"
    by (simp add: source_eval frames_read_def)
  note bound = source_yields_at_most [OF open_three_frames [of 0 ?cs] calls, of ?sched,
      unfolded bn all_frames]
  show ?thesis
    by (intro conjI) (use bound calls read open_three_frames [of 0 ?cs] in simp_all)
qed

text \<open>
  C2.  A source opened without an end on a file of \<open>frame_count\<close> frames, the beginning
  at frame index 1, should yield \<open>frame_count - 1 + 1\<close> frames: every frame of the file.
  On a file of three frames the reader runs to its end and three calls of \<open>read()\<close>
  return two frames and \<open>EndOfStream\<close>.  With the position counter starting at 0 (as
  in OpenCV) the first frame of the file is missing: the constructor seeks to position
  1.  Were the counter to start at 1, the last frame would be missing: the reader stops
  as soon as the position reaches the frame count.
\<close>

theorem whole_file_yields_two_of_three:
  "source_results (three_frames 0) None None [Start, Read, Read, Read]
     (Main # replicate 21 Worker @ replicate 9 Main)
   = Inr [Returned, Frame [[1]], Frame [[2]], EndOfStream]
   \<and> source_results (three_frames 1) None None [Start, Read, Read, Read]
     (Main # replicate 21 Worker @ replicate 9 Main)
   = Inr [Returned, Frame [[0]], Frame [[1]], EndOfStream]"
  by (simp add: open_three_frames source_eval)

section \<open>The sink: every accepted frame is encoded before the handle is released\<close>

lemma writer_thread_cases:
  obtains "th = Initial" | "th = Finished" | "th = Alive W_while" | "th = Alive W_empty"
    | "th = Alive W_get" | f where "th = Alive (W_write f)" | "th = Alive D_empty"
    | "th = Alive D_get" | f where "th = Alive (D_write f)" | "th = Alive W_release"
proof (cases th)
  case (Alive pc)
  then show ?thesis by (cases pc) (use that in auto)
qed (use that in auto)

lemma is_alive_simps [simp]:
  "is_alive Initial = False" "is_alive (Alive pc) = True" "is_alive Finished = False"
  by (simp_all add: is_alive_def)

subsection \<open>Statements of the worker\<close>

lemma writer_step_frame:
  "sink_pc (writer_step s) = sink_pc s"
  "sink_script (writer_step s) = sink_script s"
  "sink_log (writer_step s) = sink_log s"
  "vw_stopped (writer_step s) = vw_stopped s"
  "cropper (writer_step s) = cropper s"
  by (cases "vw_t s" rule: writer_thread_cases;
      simp add: writer_step_def split: list.splits)+

lemma enqueued_writer_step: "enqueued (writer_step s) = enqueued s"
  by (simp add: enqueued_def writer_step_frame)

lemma writer_step_data:
  assumes "enqueued s = vw_written s @ in_flight (vw_t s) @ vw_Q s"
  shows "enqueued (writer_step s) =
    vw_written (writer_step s) @ in_flight (vw_t (writer_step s)) @ vw_Q (writer_step s)"
  using assms unfolding enqueued_writer_step
  by (cases "vw_t s" rule: writer_thread_cases)
     (auto simp: writer_step_def split: list.splits)

lemma writer_step_getting:
  assumes "getting (vw_t s) \<longrightarrow> vw_Q s \<noteq> []"
  shows "getting (vw_t (writer_step s)) \<longrightarrow> vw_Q (writer_step s) \<noteq> []"
  using assms
  by (cases "vw_t s" rule: writer_thread_cases)
     (auto simp: writer_step_def split: list.splits)

lemma writer_step_draining:
  assumes "draining (vw_t s) \<longrightarrow> vw_stopped s"
  shows "draining (vw_t (writer_step s)) \<longrightarrow> vw_stopped (writer_step s)"
  using assms
  by (cases "vw_t s" rule: writer_thread_cases)
     (auto simp: writer_step_def split: list.splits)

lemma writer_step_alive:
  assumes "is_alive (vw_t s)" and "\<not> vw_stopped s" and "draining (vw_t s) \<longrightarrow> vw_stopped s"
  shows "is_alive (vw_t (writer_step s))"
  using assms
  by (cases "vw_t s" rule: writer_thread_cases)
     (auto simp: writer_step_def split: list.splits)

lemma writer_step_thread:
  "vw_t (writer_step s) = Initial \<longleftrightarrow> vw_t s = Initial"
  "vw_t s = Finished \<Longrightarrow> vw_t (writer_step s) = Finished"
  by (cases "vw_t s" rule: writer_thread_cases;
      simp add: writer_step_def split: list.splits)+

lemma writer_step_closing:
  assumes "vw_t s = Alive W_release \<or> vw_t s = Finished \<longrightarrow> vw_Q s = []"
  shows "vw_t (writer_step s) = Alive W_release \<or> vw_t (writer_step s) = Finished
           \<longrightarrow> vw_Q (writer_step s) = []"
  using assms
  by (cases "vw_t s" rule: writer_thread_cases)
     (auto simp: writer_step_def split: list.splits)

lemma writer_step_released:
  assumes "vw_released s \<longleftrightarrow> vw_t s = Finished"
  shows "vw_released (writer_step s) \<longleftrightarrow> vw_t (writer_step s) = Finished"
  using assms
  by (cases "vw_t s" rule: writer_thread_cases)
     (auto simp: writer_step_def split: list.splits)

lemma writer_step_inv:
  assumes "sink_inv s"
  shows "sink_inv (writer_step s)"
proof -
  from assms have
    i1: "enqueued s = vw_written s @ in_flight (vw_t s) @ vw_Q s" and
    i2: "writing (sink_pc s) \<longrightarrow> is_alive (vw_t s) \<and> \<not> vw_stopped s" and
    i3: "vw_stopped s \<longrightarrow> vw_t s \<noteq> Initial \<and> (sink_pc s = S_join \<or> vw_t s = Finished)" and
    i4: "sink_pc s = S_join \<longrightarrow> vw_stopped s" and
    i5: "draining (vw_t s) \<longrightarrow> vw_stopped s" and
    i6: "vw_t s = Alive W_release \<or> vw_t s = Finished \<longrightarrow> vw_Q s = []" and
    i7: "getting (vw_t s) \<longrightarrow> vw_Q s \<noteq> []" and
    i8: "vw_t s = Initial \<longrightarrow> started_before_stop (sink_script s)" and
    i9: "vw_released s \<longleftrightarrow> vw_t s = Finished" and
    i10: "Stopped \<in> set (sink_log s) \<longrightarrow> vw_t s = Finished"
    by (simp_all add: sink_inv_def)
  show ?thesis
    unfolding sink_inv_def writer_step_frame
  proof (intro conjI)
    show "vw_written (writer_step s) @ in_flight (vw_t (writer_step s)) @ vw_Q (writer_step s)
        = enqueued (writer_step s)"
      using writer_step_data [OF i1] by simp
    show "writing (sink_pc s) \<longrightarrow> is_alive (vw_t (writer_step s)) \<and> \<not> vw_stopped s"
      using i2 i5 writer_step_alive [of s] by blast
    show "vw_stopped s \<longrightarrow>
        vw_t (writer_step s) \<noteq> Initial \<and> (sink_pc s = S_join \<or> vw_t (writer_step s) = Finished)"
      using i3 writer_step_thread [of s] by blast
    show "sink_pc s = S_join \<longrightarrow> vw_stopped s"
      by (rule i4)
    show "draining (vw_t (writer_step s)) \<longrightarrow> vw_stopped s"
      using writer_step_draining [OF i5] by (simp add: writer_step_frame)
    show "vw_t (writer_step s) = Alive W_release \<or> vw_t (writer_step s) = Finished
        \<longrightarrow> vw_Q (writer_step s) = []"
      by (rule writer_step_closing [OF i6])
    show "getting (vw_t (writer_step s)) \<longrightarrow> vw_Q (writer_step s) \<noteq> []"
      by (rule writer_step_getting [OF i7])
    show "vw_t (writer_step s) = Initial \<longrightarrow> started_before_stop (sink_script s)"
      using i8 by (simp add: writer_step_thread)
    show "vw_released (writer_step s) \<longleftrightarrow> vw_t (writer_step s) = Finished"
      by (rule writer_step_released [OF i9])
    show "Stopped \<in> set (sink_log s) \<longrightarrow> vw_t (writer_step s) = Finished"
      using i10 writer_step_thread(2) [of s] by blast
  qed
qed

subsection \<open>Statements of the foreground thread\<close>

lemmas sink_main_defs = sink_main_step_def begin_sink_call_def logs_def

lemma sink_main_step_data:
  assumes "enqueued s = vw_written s @ in_flight (vw_t s) @ vw_Q s"
  shows "enqueued (sink_main_step s) =
    vw_written (sink_main_step s) @ in_flight (vw_t (sink_main_step s)) @ vw_Q (sink_main_step s)"
  using assms
  by (auto simp: sink_main_defs enqueued_def
      split: sink_pc.splits list.splits sink_call.splits thread.splits)

lemma sink_main_step_getting:
  assumes "getting (vw_t s) \<longrightarrow> vw_Q s \<noteq> []"
  shows "getting (vw_t (sink_main_step s)) \<longrightarrow> vw_Q (sink_main_step s) \<noteq> []"
  using assms
  by (auto simp: sink_main_defs split: sink_pc.splits list.splits sink_call.splits thread.splits)

lemma sink_main_step_draining:
  assumes "draining (vw_t s) \<longrightarrow> vw_stopped s"
  shows "draining (vw_t (sink_main_step s)) \<longrightarrow> vw_stopped (sink_main_step s)"
  using assms
  by (auto simp: sink_main_defs split: sink_pc.splits list.splits sink_call.splits thread.splits)

lemma sink_main_step_join:
  assumes "sink_pc s = S_join \<longrightarrow> vw_stopped s"
  shows "sink_pc (sink_main_step s) = S_join \<longrightarrow> vw_stopped (sink_main_step s)"
  using assms
  by (auto simp: sink_main_defs split: sink_pc.splits list.splits sink_call.splits thread.splits
      if_splits)

lemma sink_main_step_released:
  assumes "vw_released s \<longleftrightarrow> vw_t s = Finished"
  shows "vw_released (sink_main_step s) \<longleftrightarrow> vw_t (sink_main_step s) = Finished"
  using assms
  by (auto simp: sink_main_defs split: sink_pc.splits list.splits sink_call.splits thread.splits)

lemma sink_main_step_stopped_logged:
  assumes "Stopped \<in> set (sink_log s) \<longrightarrow> vw_t s = Finished"
  shows "Stopped \<in> set (sink_log (sink_main_step s)) \<longrightarrow> vw_t (sink_main_step s) = Finished"
  using assms
  by (auto simp: sink_main_defs split: sink_pc.splits list.splits sink_call.splits thread.splits
      if_splits)

lemma sink_main_step_script:
  assumes "vw_t s = Initial \<longrightarrow> started_before_stop (sink_script s)"
  shows "vw_t (sink_main_step s) = Initial \<longrightarrow> started_before_stop (sink_script (sink_main_step s))"
  using assms
  by (auto simp: sink_main_defs split: sink_pc.splits list.splits sink_call.splits thread.splits
      if_splits)

lemma sink_main_step_control:
  assumes "writing (sink_pc s) \<longrightarrow> is_alive (vw_t s) \<and> \<not> vw_stopped s"
    and "vw_stopped s \<longrightarrow> vw_t s \<noteq> Initial \<and> (sink_pc s = S_join \<or> vw_t s = Finished)"
    and "vw_t s = Initial \<longrightarrow> started_before_stop (sink_script s)"
  shows "writing (sink_pc (sink_main_step s)) \<longrightarrow>
           is_alive (vw_t (sink_main_step s)) \<and> \<not> vw_stopped (sink_main_step s)"
    and "vw_stopped (sink_main_step s) \<longrightarrow>
           vw_t (sink_main_step s) \<noteq> Initial
           \<and> (sink_pc (sink_main_step s) = S_join \<or> vw_t (sink_main_step s) = Finished)"
  using assms
  by (auto simp: sink_main_defs split: sink_pc.splits list.splits sink_call.splits thread.splits
      if_splits)

lemma sink_main_step_closing:
  assumes "vw_t s = Alive W_release \<or> vw_t s = Finished \<longrightarrow> vw_Q s = []"
    and "writing (sink_pc s) \<longrightarrow> is_alive (vw_t s) \<and> \<not> vw_stopped s"
    and "draining (vw_t s) \<longrightarrow> vw_stopped s"
  shows "vw_t (sink_main_step s) = Alive W_release \<or> vw_t (sink_main_step s) = Finished
           \<longrightarrow> vw_Q (sink_main_step s) = []"
  using assms
  by (auto simp: sink_main_defs split: sink_pc.splits list.splits sink_call.splits thread.splits
      if_splits)

lemma sink_main_step_inv:
  assumes "sink_inv s"
  shows "sink_inv (sink_main_step s)"
proof -
  from assms have
    i1: "enqueued s = vw_written s @ in_flight (vw_t s) @ vw_Q s" and
    i2: "writing (sink_pc s) \<longrightarrow> is_alive (vw_t s) \<and> \<not> vw_stopped s" and
    i3: "vw_stopped s \<longrightarrow> vw_t s \<noteq> Initial \<and> (sink_pc s = S_join \<or> vw_t s = Finished)" and
    i4: "sink_pc s = S_join \<longrightarrow> vw_stopped s" and
    i5: "draining (vw_t s) \<longrightarrow> vw_stopped s" and
    i6: "vw_t s = Alive W_release \<or> vw_t s = Finished \<longrightarrow> vw_Q s = []" and
    i7: "getting (vw_t s) \<longrightarrow> vw_Q s \<noteq> []" and
    i8: "vw_t s = Initial \<longrightarrow> started_before_stop (sink_script s)" and
    i9: "vw_released s \<longleftrightarrow> vw_t s = Finished" and
    i10: "Stopped \<in> set (sink_log s) \<longrightarrow> vw_t s = Finished"
    by (simp_all add: sink_inv_def)
  show ?thesis
    unfolding sink_inv_def
  proof (intro conjI)
    show "vw_written (sink_main_step s) @ in_flight (vw_t (sink_main_step s))
        @ vw_Q (sink_main_step s) = enqueued (sink_main_step s)"
      using sink_main_step_data [OF i1] by simp
    show "writing (sink_pc (sink_main_step s)) \<longrightarrow>
        is_alive (vw_t (sink_main_step s)) \<and> \<not> vw_stopped (sink_main_step s)"
      by (rule sink_main_step_control [OF i2 i3 i8])
    show "vw_stopped (sink_main_step s) \<longrightarrow>
        vw_t (sink_main_step s) \<noteq> Initial
        \<and> (sink_pc (sink_main_step s) = S_join \<or> vw_t (sink_main_step s) = Finished)"
      by (rule sink_main_step_control [OF i2 i3 i8])
    show "sink_pc (sink_main_step s) = S_join \<longrightarrow> vw_stopped (sink_main_step s)"
      by (rule sink_main_step_join [OF i4])
    show "draining (vw_t (sink_main_step s)) \<longrightarrow> vw_stopped (sink_main_step s)"
      by (rule sink_main_step_draining [OF i5])
    show "vw_t (sink_main_step s) = Alive W_release \<or> vw_t (sink_main_step s) = Finished
        \<longrightarrow> vw_Q (sink_main_step s) = []"
      by (rule sink_main_step_closing [OF i6 i2 i5])
    show "getting (vw_t (sink_main_step s)) \<longrightarrow> vw_Q (sink_main_step s) \<noteq> []"
      by (rule sink_main_step_getting [OF i7])
    show "vw_t (sink_main_step s) = Initial \<longrightarrow>
        started_before_stop (sink_script (sink_main_step s))"
      by (rule sink_main_step_script [OF i8])
    show "vw_released (sink_main_step s) \<longleftrightarrow> vw_t (sink_main_step s) = Finished"
      by (rule sink_main_step_released [OF i9])
    show "Stopped \<in> set (sink_log (sink_main_step s)) \<longrightarrow> vw_t (sink_main_step s) = Finished"
      by (rule sink_main_step_stopped_logged [OF i10])
  qed
qed

lemma sink_steps_inv: "sink_inv s \<Longrightarrow> sink_inv (sink_steps sched s)"
proof (induction sched arbitrary: s)
  case Nil
  then show ?case by (simp add: sink_steps_def)
next
  case (Cons a sched)
  have "sink_inv (sink_step a s)"
    using Cons.prems by (cases a) (simp_all add: sink_step_def sink_main_step_inv writer_step_inv)
  from Cons.IH [OF this] show ?case by (simp add: sink_steps_def)
qed

lemma open_sink_inv:
  assumes "VideoWriter_init fourcc w h f col = Inr v
           \<or> VideoCropper_init fourcc x y w h f col = Inr v"
    and "started_before_stop cs"
  shows "sink_inv (open_sink v cs)"
  using assms
  by (auto simp: VideoWriter_init_def VideoCropper_init_def open_sink_def sink_inv_def
      enqueued_def VideoWriter.defs sink_run.defs split: if_splits)

subsection \<open>The worker finishes once stopped is set\<close>

lemma writer_step_decreases:
  assumes "vw_stopped s" and "vw_t s \<noteq> Finished" and "vw_t s \<noteq> Initial"
    and "getting (vw_t s) \<longrightarrow> vw_Q s \<noteq> []"
  shows "drain_steps (vw_t (writer_step s)) (length (vw_Q (writer_step s)))
           < drain_steps (vw_t s) (length (vw_Q s))"
  using assms
  by (cases "vw_t s" rule: writer_thread_cases)
     (auto simp: writer_step_def split: list.splits)

lemma worker_finishes:
  assumes "sink_inv s" and "vw_stopped s"
  shows "\<exists>n. vw_t (sink_steps (replicate n Worker) s) = Finished
            \<and> sink_pc (sink_steps (replicate n Worker) s) = sink_pc s
            \<and> sink_log (sink_steps (replicate n Worker) s) = sink_log s"
  using assms
proof (induction "drain_steps (vw_t s) (length (vw_Q s))" arbitrary: s rule: less_induct)
  case less
  show ?case
  proof (cases "vw_t s = Finished")
    case True
    then have "vw_t (sink_steps (replicate 0 Worker) s) = Finished
        \<and> sink_pc (sink_steps (replicate 0 Worker) s) = sink_pc s
        \<and> sink_log (sink_steps (replicate 0 Worker) s) = sink_log s"
      by (simp add: sink_steps_def)
    then show ?thesis by blast
  next
    case False
    from less.prems have "vw_t s \<noteq> Initial" and "getting (vw_t s) \<longrightarrow> vw_Q s \<noteq> []"
      by (simp_all add: sink_inv_def)
    with less.prems False
    have "drain_steps (vw_t (writer_step s)) (length (vw_Q (writer_step s)))
        < drain_steps (vw_t s) (length (vw_Q s))"
      by (intro writer_step_decreases) simp_all
    moreover have "sink_inv (writer_step s)"
      using less.prems(1) by (rule writer_step_inv)
    moreover have "vw_stopped (writer_step s)"
      using less.prems(2) by (simp add: writer_step_frame)
    ultimately obtain n where
      n: "vw_t (sink_steps (replicate n Worker) (writer_step s)) = Finished"
         "sink_pc (sink_steps (replicate n Worker) (writer_step s)) = sink_pc (writer_step s)"
         "sink_log (sink_steps (replicate n Worker) (writer_step s)) = sink_log (writer_step s)"
      using less.hyps by blast
    have "sink_steps (replicate (Suc n) Worker) s = sink_steps (replicate n Worker) (writer_step s)"
      by (simp add: sink_steps_def sink_step_def)
    with n have "vw_t (sink_steps (replicate (Suc n) Worker) s) = Finished
        \<and> sink_pc (sink_steps (replicate (Suc n) Worker) s) = sink_pc s
        \<and> sink_log (sink_steps (replicate (Suc n) Worker) s) = sink_log s"
      by (simp add: writer_step_frame)
    then show ?thesis by blast
  qed
qed

lemma sink_steps_append:
  "sink_steps (xs @ ys) s = sink_steps ys (sink_steps xs s)"
  by (simp add: sink_steps_def)

lemma stop_returns:
  assumes "sink_inv s" and "sink_pc s = S_join"
  shows "\<exists>n. Stopped \<in> set (sink_log (sink_steps (replicate n Worker @ [Main]) s))"
proof -
  from assms have "vw_stopped s"
    by (simp add: sink_inv_def)
  with assms(1) obtain n where
    n: "vw_t (sink_steps (replicate n Worker) s) = Finished"
       "sink_pc (sink_steps (replicate n Worker) s) = sink_pc s"
    using worker_finishes by blast
  with assms(2) have "Stopped \<in> set (sink_log (sink_steps (replicate n Worker @ [Main]) s))"
    by (simp add: sink_steps_append) (simp add: sink_steps_def sink_step_def sink_main_defs)
  then show ?thesis by blast
qed

text \<open>
  C1.  For a writer or a cropper, whatever frames the foreground thread writes and
  however the two threads interleave, provided the calls do not stop the sink before
  they start it: when the encode handle is released, the frames passed to its \<open>write\<close>
  are exactly the frames accepted by \<open>write()\<close>, in order, and the queue is empty; once
  \<open>stop()\<close> has returned the handle is released, so as many frames were encoded as were
  accepted; and a \<open>stop()\<close> waiting in \<open>join()\<close> does return after finitely many
  statements of the worker.
\<close>

theorem stop_encodes_every_accepted_frame:
  assumes "VideoWriter_init fourcc w h f col = Inr v
           \<or> VideoCropper_init fourcc x y w h f col = Inr v"
    and "started_before_stop cs"
  shows "(vw_released (sink_steps sched (open_sink v cs)) \<longrightarrow>
            vw_written (sink_steps sched (open_sink v cs))
              = enqueued (sink_steps sched (open_sink v cs))
            \<and> vw_Q (sink_steps sched (open_sink v cs)) = [])
    \<and> (Stopped \<in> set (sink_log (sink_steps sched (open_sink v cs))) \<longrightarrow>
            vw_released (sink_steps sched (open_sink v cs))
            \<and> length (vw_written (sink_steps sched (open_sink v cs)))
                = length (enqueued (sink_steps sched (open_sink v cs))))
    \<and> (sink_pc (sink_steps sched (open_sink v cs)) = S_join \<longrightarrow>
            (\<exists>n. Stopped \<in> set (sink_log
                    (sink_steps (replicate n Worker @ [Main])
                       (sink_steps sched (open_sink v cs))))))"
proof -
  let ?s = "sink_steps sched (open_sink v cs)"
  have inv: "sink_inv ?s"
    using assms by (intro sink_steps_inv open_sink_inv)
  then have data: "vw_written ?s @ in_flight (vw_t ?s) @ vw_Q ?s = enqueued ?s"
    and closing: "vw_t ?s = Finished \<longrightarrow> vw_Q ?s = []"
    and released: "vw_released ?s \<longleftrightarrow> vw_t ?s = Finished"
    and stopped: "Stopped \<in> set (sink_log ?s) \<longrightarrow> vw_t ?s = Finished"
    by (simp_all add: sink_inv_def)
  have at_release: "vw_written ?s = enqueued ?s \<and> vw_Q ?s = []" if "vw_released ?s"
  proof -
    from that released have "vw_t ?s = Finished" by simp
    with data closing show ?thesis by simp
  qed
  show ?thesis
  proof (intro conjI impI)
    assume "vw_released ?s"
    then show "vw_written ?s = enqueued ?s" and "vw_Q ?s = []"
      using at_release by simp_all
  next
    assume "Stopped \<in> set (sink_log ?s)"
    with stopped released show "vw_released ?s" by simp
    with at_release show "length (vw_written ?s) = length (enqueued ?s)" by simp
  next
    assume "sink_pc ?s = S_join"
    with inv show "\<exists>n. Stopped \<in> set (sink_log (sink_steps (replicate n Worker @ [Main]) ?s))"
      by (rule stop_returns)
  qed
qed

lemmas sink_eval = sink_steps_def sink_step_def sink_main_defs writer_step_def queued_frame_def
  maxsize_def open_sink_def VideoWriter.defs sink_run.defs enqueued_def replicate_numeral_eval
  three_writes_def plain_writer_def

theorem stop_encodes_every_accepted_frame_witness:
  "VideoWriter_init ''MJPG'' 1 1 25 True = Inr plain_writer
   \<and> started_before_stop three_writes
   \<and> Stopped \<in> set (sink_log (sink_steps (replicate 11 Main @ replicate 12 Worker @ [Main])
        (open_sink plain_writer three_writes)))
   \<and> vw_released (sink_steps (replicate 11 Main @ replicate 12 Worker @ [Main])
        (open_sink plain_writer three_writes))
   \<and> vw_written (sink_steps (replicate 11 Main @ replicate 12 Worker @ [Main])
        (open_sink plain_writer three_writes)) = [[[1]], [[2]], [[3]]]
   \<and> enqueued (sink_steps (replicate 11 Main @ replicate 12 Worker @ [Main])
        (open_sink plain_writer three_writes)) = [[[1]], [[2]], [[3]]]
   \<and> sink_pc (sink_steps (replicate 11 Main) (open_sink plain_writer three_writes)) = S_join
   \<and> (\<exists>n. Stopped \<in> set (sink_log (sink_steps (replicate n Worker @ [Main])
        (sink_steps (replicate 11 Main) (open_sink plain_writer three_writes)))))"
proof -
  let ?all = "replicate 11 Main @ replicate 12 Worker @ [Main]"
  have init: "VideoWriter_init ''MJPG'' 1 1 25 True = Inr plain_writer"
    by (simp add: VideoWriter_init_def plain_writer_def)
  have calls: "started_before_stop three_writes"
    by (simp add: three_writes_def)
  have returned: "Stopped \<in> set (sink_log (sink_steps ?all (open_sink plain_writer three_writes)))"
    by (simp add: sink_eval)
  have accepted: "enqueued (sink_steps ?all (open_sink plain_writer three_writes))
      = [[[1]], [[2]], [[3]]]"
    by (simp add: sink_eval)
  have waiting: "sink_pc (sink_steps (replicate 11 Main) (open_sink plain_writer three_writes))
      = S_join"
    by (simp add: sink_eval)
  from stop_encodes_every_accepted_frame [OF disjI1 [OF init] calls, of ?all]
    stop_encodes_every_accepted_frame [OF disjI1 [OF init] calls, of "replicate 11 Main"]
    init calls returned accepted waiting
  show ?thesis by simp
qed

section \<open>The sink: when write() raises\<close>

lemma sink_main_step_log:
  "\<exists>evs. sink_log (sink_main_step s) = sink_log s @ evs"
  by (auto simp: sink_main_defs split: sink_pc.splits list.splits sink_call.splits thread.splits)

lemma sink_main_step_cropper: "cropper (sink_main_step s) = cropper s"
  by (auto simp: sink_main_defs split: sink_pc.splits list.splits sink_call.splits thread.splits)

lemma sink_step_log:
  "\<exists>evs. sink_log (sink_step a s) = sink_log s @ evs"
  by (cases a) (simp_all add: sink_step_def sink_main_step_log writer_step_frame)

lemma sink_step_cropper: "cropper (sink_step a s) = cropper s"
  by (cases a) (simp_all add: sink_step_def sink_main_step_cropper writer_step_frame)

lemma sink_main_at_full:
  "sink_pc s = S_full f \<Longrightarrow>
     sink_main_step s = (if maxsize \<le> length (vw_Q s) then s else s\<lparr>sink_pc := S_put f\<rparr>)"
  by (simp add: sink_main_defs)

lemma sink_main_at_put:
  "sink_pc s = S_put f \<Longrightarrow>
     sink_main_step s =
       (if maxsize \<le> length (vw_Q s) then s
        else s\<lparr>vw_Q := vw_Q s @ [queued_frame s f], sink_pc := S_idle,
               sink_log := sink_log s @ [Enqueued (queued_frame s f)]\<rparr>)"
  by (simp add: sink_main_defs)

lemma in_write_step:
  assumes "in_write f l g s"
  shows "in_write f l g (sink_step a s)"
proof -
  from assms consider
    (inside) "sink_pc s = S_full f \<or> sink_pc s = S_put f" "sink_log s = l" "queued_frame s f = g"
    | (returned) more where "sink_log s = l @ Enqueued g # more"
    by (auto simp: in_write_def)
  then show ?thesis
  proof cases
    case inside
    show ?thesis
    proof (cases a)
      case Main
      show ?thesis
      proof (cases "maxsize \<le> length (vw_Q s)")
        case True
        with inside Main have "sink_step a s = s"
          by (auto simp: sink_step_def sink_main_at_full sink_main_at_put)
        with assms show ?thesis by simp
      next
        case False
        from inside(1) show ?thesis
        proof
          assume "sink_pc s = S_full f"
          with False Main inside(2,3) show ?thesis
            by (simp add: in_write_def sink_step_def sink_main_at_full queued_frame_def)
        next
          assume "sink_pc s = S_put f"
          with False Main inside(2,3) show ?thesis
            by (simp add: in_write_def sink_step_def sink_main_at_put)
        qed
      qed
    next
      case Worker
      with inside show ?thesis
        by (auto simp: in_write_def sink_step_def writer_step_frame queued_frame_def)
    qed
  next
    case returned
    from sink_step_log [of a s] obtain evs where "sink_log (sink_step a s) = sink_log s @ evs"
      by blast
    with returned have "sink_log (sink_step a s) = l @ Enqueued g # (more @ evs)"
      by simp
    then show ?thesis
      unfolding in_write_def by blast
  qed
qed

lemma in_write_steps:
  "in_write f l g s \<Longrightarrow> in_write f l g (sink_steps sched s)"
proof (induction sched arbitrary: s)
  case Nil
  then show ?case by (simp add: sink_steps_def)
next
  case (Cons a sched)
  from Cons.prems have "in_write f l g (sink_step a s)"
    by (rule in_write_step)
  from Cons.IH [OF this] show ?case by (simp add: sink_steps_def)
qed

text \<open>
  C9.  Take a sink whose foreground thread is about to call \<open>write(f)\<close>.  If the worker
  thread has exited, the call raises \<open>IOError\<close> (the writer is not ready) and changes
  nothing else: no frame is enqueued.  If the worker is alive when the call tests it,
  then whatever the two threads do next, the call does not raise: either it has not
  returned yet, or the first thing it did was to enqueue the frame (cut to the rectangle
  for a cropper).  While the queue holds 128 frames the call stays where it is; as soon
  as there is room it appends the frame to the queue and returns.
\<close>

theorem write_raises_iff_worker_exited:
  assumes "sink_pc s = S_idle" and "sink_script s = Write f # cs"
  shows "(vw_t s = Finished \<longrightarrow>
            sink_main_step s = s\<lparr>sink_script := cs, sink_log := sink_log s @ [Failed IOError]\<rparr>)
    \<and> (is_alive (vw_t s) \<longrightarrow>
          (\<forall>sched. sink_log (sink_steps (Main # sched) s) = sink_log s
             \<or> (\<exists>more. sink_log (sink_steps (Main # sched) s)
                   = sink_log s @ Enqueued (queued_frame s f) # more)))
    \<and> (\<forall>s1 :: sink_run. sink_pc s1 = S_full f \<and> maxsize \<le> length (vw_Q s1) \<longrightarrow> sink_main_step s1 = s1)
    \<and> (\<forall>s1 :: sink_run. sink_pc s1 = S_full f \<and> length (vw_Q s1) < maxsize \<longrightarrow>
          sink_steps [Main, Main] s1
            = s1\<lparr>vw_Q := vw_Q s1 @ [queued_frame s1 f], sink_pc := S_idle,
                 sink_log := sink_log s1 @ [Enqueued (queued_frame s1 f)]\<rparr>)"
proof (intro conjI impI allI)
  assume "vw_t s = Finished"
  with assms show "sink_main_step s
      = s\<lparr>sink_script := cs, sink_log := sink_log s @ [Failed IOError]\<rparr>"
    by (simp add: sink_main_defs)
next
  fix sched
  assume alive: "is_alive (vw_t s)"
  with assms have "sink_main_step s = s\<lparr>sink_script := cs, sink_pc := S_full f\<rparr>"
    by (simp add: sink_main_defs)
  then have "in_write f (sink_log s) (queued_frame s f) (sink_main_step s)"
    by (simp add: in_write_def queued_frame_def)
  then have "in_write f (sink_log s) (queued_frame s f) (sink_steps sched (sink_main_step s))"
    by (rule in_write_steps)
  then show "sink_log (sink_steps (Main # sched) s) = sink_log s
      \<or> (\<exists>more. sink_log (sink_steps (Main # sched) s)
            = sink_log s @ Enqueued (queued_frame s f) # more)"
    by (auto simp: in_write_def sink_steps_def sink_step_def)
next
  fix s1 :: sink_run
  assume "sink_pc s1 = S_full f \<and> maxsize \<le> length (vw_Q s1)"
  then show "sink_main_step s1 = s1"
    by (simp add: sink_main_defs)
next
  fix s1 :: sink_run
  assume "sink_pc s1 = S_full f \<and> length (vw_Q s1) < maxsize"
  then show "sink_steps [Main, Main] s1
      = s1\<lparr>vw_Q := vw_Q s1 @ [queued_frame s1 f], sink_pc := S_idle,
           sink_log := sink_log s1 @ [Enqueued (queued_frame s1 f)]\<rparr>"
    by (simp add: sink_steps_def sink_step_def sink_main_at_full sink_main_at_put
        queued_frame_def)
qed

theorem write_raises_iff_worker_exited_witness:
  "sink_pc after_stop = S_idle \<and> sink_script after_stop = [Write [[7]]]
   \<and> vw_t after_stop = Finished
   \<and> sink_main_step after_stop
       = after_stop\<lparr>sink_script := [], sink_log := [Started, Stopped, Failed IOError]\<rparr>
   \<and> vw_Q (sink_main_step after_stop) = []
   \<and> sink_pc after_start = S_idle \<and> sink_script after_start = [Write [[7]]]
   \<and> is_alive (vw_t after_start)
   \<and> sink_log (sink_steps [Main, Worker, Main, Main] after_start) = [Started, Enqueued [[7]]]
   \<and> sink_main_step queue_full = queue_full
   \<and> vw_Q (sink_steps [Main, Main] (sink_main_step after_start)) = [[[7]]]"
proof -
  have dead: "sink_pc after_stop = S_idle" "sink_script after_stop = [Write [[7]]]"
      "vw_t after_stop = Finished" "sink_log after_stop = [Started, Stopped]"
      "vw_Q after_stop = []"
    by (simp_all add: after_stop_def sink_eval)
  have live: "sink_pc after_start = S_idle" "sink_script after_start = [Write [[7]]]"
      "is_alive (vw_t after_start)" "sink_log after_start = [Started]"
      "queued_frame after_start [[7]] = [[7]]" "vw_Q after_start = []"
    by (simp_all add: after_start_def sink_eval)
  have progress: "sink_log (sink_steps [Main, Worker, Main, Main] after_start) \<noteq> [Started]"
    by (simp add: after_start_def sink_eval)
  have full: "sink_pc queue_full = S_full [[7]] \<and> maxsize \<le> length (vw_Q queue_full)"
    by (simp add: queue_full_def maxsize_def)
  have room: "sink_pc (sink_main_step after_start) = S_full [[7]]
      \<and> length (vw_Q (sink_main_step after_start)) < maxsize"
    by (simp add: after_start_def sink_eval)
  note exited = write_raises_iff_worker_exited [OF dead(1,2)]
  note alive = write_raises_iff_worker_exited [OF live(1,2)]
  from exited dead have 1: "sink_main_step after_stop
      = after_stop\<lparr>sink_script := [], sink_log := [Started, Stopped, Failed IOError]\<rparr>"
    by simp
  from alive live(3) have "sink_log (sink_steps (Main # [Worker, Main, Main]) after_start)
        = sink_log after_start
      \<or> (\<exists>more. sink_log (sink_steps (Main # [Worker, Main, Main]) after_start)
            = sink_log after_start @ Enqueued (queued_frame after_start [[7]]) # more)"
    by blast
  with progress live(4,5) obtain more where
    more: "sink_log (sink_steps [Main, Worker, Main, Main] after_start)
      = [Started, Enqueued [[7]]] @ more"
    by auto
  have "length (sink_log (sink_steps [Main, Worker, Main, Main] after_start)) = 2"
    by (simp add: after_start_def sink_eval)
  with more have 2: "sink_log (sink_steps [Main, Worker, Main, Main] after_start)
      = [Started, Enqueued [[7]]]"
    by simp
  from alive full have 3: "sink_main_step queue_full = queue_full"
    by blast
  from alive room have "sink_steps [Main, Main] (sink_main_step after_start)
      = (sink_main_step after_start)
          \<lparr>vw_Q := vw_Q (sink_main_step after_start)
              @ [queued_frame (sink_main_step after_start) [[7]]],
           sink_pc := S_idle,
           sink_log := sink_log (sink_main_step after_start)
              @ [Enqueued (queued_frame (sink_main_step after_start) [[7]])]\<rparr>"
    by blast
  then have 4: "vw_Q (sink_steps [Main, Main] (sink_main_step after_start)) = [[[7]]]"
    by (simp add: after_start_def sink_eval)
  from 1 2 3 4 dead live show ?thesis
    by simp
qed

section \<open>The cropper: construction and the rectangle it cuts out\<close>

lemma py_slice_nonneg:
  assumes "0 \<le> lo" and "lo \<le> hi"
  shows "py_slice lo hi xs = take (nat (hi - lo)) (drop (nat lo) xs)"
proof (cases "lo \<le> int (length xs)")
  case True
  with assms show ?thesis
    by (cases "hi \<le> int (length xs)") (auto simp: py_slice_def Let_def min_def)
next
  case False
  with assms show ?thesis
    by (auto simp: py_slice_def Let_def min_def)
qed

lemma crop_frame_nonneg:
  assumes "0 \<le> x" and "0 \<le> y" and "0 \<le> w" and "0 \<le> h"
  shows "crop_frame (x, y, w, h) f
           = map (\<lambda>row. take (nat w) (drop (nat x) row)) (take (nat h) (drop (nat y) f))"
  using assms by (simp add: crop_frame_def py_slice_nonneg)

lemma VideoCropper_init_result:
  "VideoCropper_init fourcc x y w h fr col =
     (if length fourcc \<noteq> 4 then Inl TypeError
      else Inr \<lparr>dimension = (w, h), vw_fps = fr, color = col, vw_written = [],
                vw_released = False, vw_Q = [], vw_stopped = False, vw_t = Initial,
                vw_frame_number = 0, cropper = Some (x, y, w, h)\<rparr>)"
  by (simp add: VideoCropper_init_def VideoWriter_init_def)

text \<open>
  C6, as the code has it.  The constructor of a cropper does not look at the rectangle:
  it fails exactly when the codec tag does not have four characters, and otherwise
  stores \<open>x\<close>, \<open>y\<close>, \<open>w\<close>, \<open>h\<close> as given.  \<open>write\<close> puts \<open>frame[y:y+h, x:x+w]\<close> into the
  queue.  For a rectangle with non-negative coordinates that is rows \<open>y\<close> to \<open>y + h\<close>,
  columns \<open>x\<close> to \<open>x + w\<close>, as far as the frame has them; when the rectangle lies within
  the frame it is the sub-frame of exactly \<open>h\<close> rows and \<open>w\<close> columns.
\<close>

theorem cropper_cuts_rectangle:
  fixes f :: frame and s :: sink_run
  shows "(isl (VideoCropper_init fourcc x y w h fr col) \<longleftrightarrow> length fourcc \<noteq> 4)
    \<and> (\<forall>v. VideoCropper_init fourcc x y w h fr col = Inr v \<longrightarrow>
          cropper v = Some (x, y, w, h)
          \<and> queued_frame v f = map (py_slice x (x + w)) (py_slice y (y + h) f))
    \<and> (sink_pc s = S_put f \<and> length (vw_Q s) < maxsize \<and> cropper s = Some (x, y, w, h) \<longrightarrow>
          vw_Q (sink_main_step s) = vw_Q s @ [crop_frame (x, y, w, h) f])
    \<and> (0 \<le> x \<and> 0 \<le> y \<and> 0 \<le> w \<and> 0 \<le> h \<longrightarrow>
          crop_frame (x, y, w, h) f
            = map (\<lambda>row. take (nat w) (drop (nat x) row)) (take (nat h) (drop (nat y) f)))
    \<and> (0 \<le> x \<and> 0 \<le> y \<and> 0 \<le> w \<and> 0 \<le> h \<and> y + h \<le> int (length f)
         \<and> (\<forall>row \<in> set f. x + w \<le> int (length row)) \<longrightarrow>
          length (crop_frame (x, y, w, h) f) = nat h
          \<and> (\<forall>row \<in> set (crop_frame (x, y, w, h) f). length row = nat w)
          \<and> (\<forall>i < nat h. \<forall>j < nat w.
                crop_frame (x, y, w, h) f ! i ! j = f ! (nat y + i) ! (nat x + j)))"
proof (intro conjI impI allI)
  show "isl (VideoCropper_init fourcc x y w h fr col) \<longleftrightarrow> length fourcc \<noteq> 4"
    by (simp add: VideoCropper_init_result)
next
  fix v
  assume v: "VideoCropper_init fourcc x y w h fr col = Inr v"
  then show "cropper v = Some (x, y, w, h)"
    by (auto simp: VideoCropper_init_result split: if_splits)
  then show "queued_frame v f = map (py_slice x (x + w)) (py_slice y (y + h) f)"
    by (simp add: queued_frame_def crop_frame_def)
next
  assume "sink_pc s = S_put f \<and> length (vw_Q s) < maxsize \<and> cropper s = Some (x, y, w, h)"
  then show "vw_Q (sink_main_step s) = vw_Q s @ [crop_frame (x, y, w, h) f]"
    by (simp add: sink_main_at_put queued_frame_def)
next
  assume "0 \<le> x \<and> 0 \<le> y \<and> 0 \<le> w \<and> 0 \<le> h"
  then show "crop_frame (x, y, w, h) f
      = map (\<lambda>row. take (nat w) (drop (nat x) row)) (take (nat h) (drop (nat y) f))"
    by (simp add: crop_frame_nonneg)
next
  assume inside: "0 \<le> x \<and> 0 \<le> y \<and> 0 \<le> w \<and> 0 \<le> h \<and> y + h \<le> int (length f)
    \<and> (\<forall>row \<in> set f. x + w \<le> int (length row))"
  then have eq: "crop_frame (x, y, w, h) f
      = map (\<lambda>row. take (nat w) (drop (nat x) row)) (take (nat h) (drop (nat y) f))"
    by (simp add: crop_frame_nonneg)
  from inside have rows: "nat y + nat h \<le> length f"
    by linarith
  then show len: "length (crop_frame (x, y, w, h) f) = nat h"
    by (simp add: eq)
  have width: "nat w \<le> length row - nat x" if "row \<in> set f" for row
  proof -
    from inside that have "x + w \<le> int (length row)" by blast
    with inside show ?thesis by linarith
  qed
  show "\<forall>row \<in> set (crop_frame (x, y, w, h) f). length row = nat w"
  proof
    fix row
    assume "row \<in> set (crop_frame (x, y, w, h) f)"
    then obtain r where r: "r \<in> set (take (nat h) (drop (nat y) f))"
      and row: "row = take (nat w) (drop (nat x) r)"
      by (auto simp: eq)
    from r have "r \<in> set f"
      by (meson in_set_dropD in_set_takeD)
    from width [OF this] show "length row = nat w"
      by (simp add: row)
  qed
  show "crop_frame (x, y, w, h) f ! i ! j = f ! (nat y + i) ! (nat x + j)"
    if "i < nat h" and "j < nat w" for i j
  proof -
    from that rows have i: "i < length (take (nat h) (drop (nat y) f))"
      by simp
    then have "crop_frame (x, y, w, h) f ! i
        = take (nat w) (drop (nat x) (take (nat h) (drop (nat y) f) ! i))"
      by (simp add: eq)
    also from that rows have "take (nat h) (drop (nat y) f) ! i = f ! (nat y + i)"
      by simp
    finally have "crop_frame (x, y, w, h) f ! i = take (nat w) (drop (nat x) (f ! (nat y + i)))" .
    moreover from that rows have "f ! (nat y + i) \<in> set f"
      by simp
    from width [OF this] that have "nat x + j < length (f ! (nat y + i))"
      by linarith
    ultimately show ?thesis
      using that by simp
  qed
qed

lemma frame100_size:
  "length frame100 = 100" "\<forall>row \<in> set frame100. length row = 100"
  by (auto simp: frame100_def)

lemma frame100_pixel: "r < 100 \<Longrightarrow> c < 100 \<Longrightarrow> frame100 ! r ! c = 100 * r + c"
  by (simp add: frame100_def)

theorem cropper_cuts_rectangle_witness:
  "VideoCropper_init ''MJPG'' 10 10 50 50 25 True = Inr cropper_10_50
   \<and> cropper cropper_10_50 = Some (10, 10, 50, 50)
   \<and> queued_frame cropper_10_50 frame100 = map (py_slice 10 60) (py_slice 10 60 frame100)
   \<and> sink_pc cropper_writing = S_put frame100
   \<and> vw_Q (sink_main_step cropper_writing) = [crop_frame (10, 10, 50, 50) frame100]
   \<and> length (crop_frame (10, 10, 50, 50) frame100) = 50
   \<and> list_all (\<lambda>row. length row = 50) (crop_frame (10, 10, 50, 50) frame100)
   \<and> crop_frame (10, 10, 50, 50) frame100 ! 0 ! 0 = 1010
   \<and> crop_frame (10, 10, 50, 50) frame100 ! 49 ! 49 = 5959"
proof -
  have init: "VideoCropper_init ''MJPG'' 10 10 50 50 25 True = Inr cropper_10_50"
    by (simp add: VideoCropper_init_result cropper_10_50_def plain_writer_def)
  have put: "sink_pc cropper_writing = S_put frame100
      \<and> length (vw_Q cropper_writing) < maxsize
      \<and> cropper cropper_writing = Some (10, 10, 50, 50)"
    "vw_Q cropper_writing = []"
    by (simp_all add: cropper_writing_def cropper_10_50_def sink_eval)
  have inside: "(0::int) \<le> 10 \<and> (0::int) \<le> 10 \<and> (0::int) \<le> 50 \<and> (0::int) \<le> 50
      \<and> (10::int) + 50 \<le> int (length frame100)
      \<and> (\<forall>row \<in> set frame100. (10::int) + 50 \<le> int (length row))"
    by (simp add: frame100_size)
  note inst = cropper_cuts_rectangle [of "''MJPG''" 10 10 50 50 25 True frame100 cropper_writing]
  from inst [THEN conjunct2, THEN conjunct1] init
  have 1: "cropper cropper_10_50 = Some (10, 10, 50, 50)
      \<and> queued_frame cropper_10_50 frame100 = map (py_slice 10 60) (py_slice 10 60 frame100)"
    by simp
  from inst [THEN conjunct2, THEN conjunct2, THEN conjunct1] put
  have 2: "vw_Q (sink_main_step cropper_writing) = [crop_frame (10, 10, 50, 50) frame100]"
    by simp
  from inst [THEN conjunct2, THEN conjunct2, THEN conjunct2, THEN conjunct2] inside
  have 3: "length (crop_frame (10, 10, 50, 50) frame100) = 50"
    and 4: "\<forall>row \<in> set (crop_frame (10, 10, 50, 50) frame100). length row = 50"
    and 5: "\<forall>i < 50. \<forall>j < 50.
        crop_frame (10, 10, 50, 50) frame100 ! i ! j = frame100 ! (10 + i) ! (10 + j)"
    by simp_all
  from 5 have "crop_frame (10, 10, 50, 50) frame100 ! 0 ! 0 = frame100 ! (10 + 0) ! (10 + 0)"
    by simp
  then have 6: "crop_frame (10, 10, 50, 50) frame100 ! 0 ! 0 = 1010"
    by (simp add: frame100_pixel)
  from 5 have "crop_frame (10, 10, 50, 50) frame100 ! 49 ! 49 = frame100 ! (10 + 49) ! (10 + 49)"
    by simp
  then have 7: "crop_frame (10, 10, 50, 50) frame100 ! 49 ! 49 = 5959"
    by (simp add: frame100_pixel)
  from 4 have 8: "list_all (\<lambda>row. length row = 50) (crop_frame (10, 10, 50, 50) frame100)"
    by (simp add: list_all_iff)
  show ?thesis
    by (intro conjI) (use init 1 put(1) 2 3 8 6 7 in simp_all)
qed

text \<open>
  C6, as the claim has it, fails: a cropper whose rectangle \<open>(60, 60, 50, 50)\<close> reaches
  beyond a frame of 100 by 100 pixels is constructed like any other, and writing that
  frame to it does not fail either: the slice is clipped, and a frame of 40 rows and
  40 columns goes into the queue.
\<close>

theorem cropper_beyond_frame_is_constructed:
  "VideoCropper_init ''MJPG'' 60 60 50 50 25 True
     = Inr (plain_writer\<lparr>dimension := (50, 50), cropper := Some (60, 60, 50, 50)\<rparr>)
   \<and> queued_frame (plain_writer\<lparr>dimension := (50, 50), cropper := Some (60, 60, 50, 50)\<rparr>)
        frame100 = crop_frame (60, 60, 50, 50) frame100
   \<and> map length (crop_frame (60, 60, 50, 50) frame100) = replicate 40 40"
proof (intro conjI)
  show "VideoCropper_init ''MJPG'' 60 60 50 50 25 True
      = Inr (plain_writer\<lparr>dimension := (50, 50), cropper := Some (60, 60, 50, 50)\<rparr>)"
    by (simp add: VideoCropper_init_result plain_writer_def)
  show "queued_frame (plain_writer\<lparr>dimension := (50, 50), cropper := Some (60, 60, 50, 50)\<rparr>)
      frame100 = crop_frame (60, 60, 50, 50) frame100"
    by (simp add: queued_frame_def)
  have "crop_frame (60, 60, 50, 50) frame100
      = map (\<lambda>row. take 50 (drop 60 row)) (take 50 (drop 60 frame100))"
    by (simp add: crop_frame_nonneg)
  also have "take 50 (drop 60 frame100) = drop 60 frame100"
    by (simp add: frame100_size)
  finally have "map length (crop_frame (60, 60, 50, 50) frame100)
      = map (\<lambda>row. min (length row - 60) 50) (drop 60 frame100)"
    by (simp add: comp_def)
  also have "\<dots> = map (\<lambda>row. 40) (drop 60 frame100)"
    using frame100_size(2) by (intro map_cong refl) (auto dest: in_set_dropD)
  also have "\<dots> = replicate 40 40"
    by (simp add: map_replicate_const frame100_size)
  finally show "map length (crop_frame (60, 60, 50, 50) frame100) = replicate 40 40" .
qed

section \<open>video_crop.py: rotation of the croppers at a split\<close>

lemma fed_fields [simp]:
  "vw_t (fed fs v) = vw_t v" "cropper (fed fs v) = cropper v"
  "vw_written (fed fs v) = vw_written v" "vw_Q (fed fs v) = vw_Q v @ map (queued_frame v) fs"
  by (simp_all add: fed_def)

lemma queued_frame_fed [simp]: "queued_frame (fed fs v) = queued_frame v"
  by (rule ext) (simp add: queued_frame_def)

lemma fed_fed: "fed gs (fed fs v) = fed (fs @ gs) v"
  by (simp add: fed_def queued_frame_def)

lemma fed_Nil [simp]: "fed [] v = v"
  by (simp add: fed_def)

lemma map_sinks_write:
  assumes "\<forall>(n, v) \<in> set cs. is_alive (vw_t v)"
  shows "map_sinks (call_write f) cs = Inr (map (\<lambda>(n, v). (n, fed [f] v)) cs)"
  using assms by (induction cs) (auto simp: call_write_def fed_def)

lemma map_sinks_stop:
  assumes "\<forall>(n, v) \<in> set cs. is_alive (vw_t v)"
  shows "map_sinks call_stop cs = Inr (map (\<lambda>(n, v). (n, drained v)) cs)"
  using assms
  by (induction cs) (auto simp: call_stop_def is_alive_def split: thread.splits)

lemma start_group:
  assumes "length fourcc = 4"
  shows "(case get_croppers_array table fourcc f col prefix of
            Inl err \<Rightarrow> Inl err
          | Inr a \<Rightarrow> map_sinks call_start a)
         = Inr (map (fresh_cropper fourcc f col prefix) table)"
  using assms
  by (induction table)
     (auto simp: VideoCropper_init_result call_start_def fresh_cropper_def split: sum.splits)

lemma fresh_cropper_alive:
  "\<forall>(n, v) \<in> set (map (fresh_cropper fourcc f col prefix) table). is_alive (vw_t v)"
  by (auto simp: fresh_cropper_def)

lemma rotate_result:
  assumes "\<forall>(n, v) \<in> set (croppers st). is_alive (vw_t v)" and "length (opt_fourcc st) = 4"
  shows "rotate st =
    Inr (st\<lparr>finished := finished st @ [map (\<lambda>(n, v). (n, drained v)) (croppers st)],
            j := j st + 1,
            croppers := map (fresh_cropper (opt_fourcc st) (opt_fps st) (opt_color st)
                              (part_prefix (j st + 1))) (crops_table st),
            opt_splits := tl (opt_splits st)\<rparr>)"
proof -
  from assms(2) have "\<exists>a. get_croppers_array (crops_table st) (opt_fourcc st) (opt_fps st)
        (opt_color st) (part_prefix (j st + 1)) = Inr a
      \<and> map_sinks call_start a = Inr (map (fresh_cropper (opt_fourcc st) (opt_fps st)
            (opt_color st) (part_prefix (j st + 1))) (crops_table st))"
    using start_group [of "opt_fourcc st" "crops_table st" "opt_fps st" "opt_color st"
        "part_prefix (j st + 1)"]
    by (auto split: sum.splits)
  then show ?thesis
    using map_sinks_stop [OF assms(1)] by (auto simp: rotate_def)
qed

lemma consume_append:
  "consume (fs @ gs) st = (case consume fs st of Inl err \<Rightarrow> Inl err | Inr st' \<Rightarrow> consume gs st')"
  by (induction fs arbitrary: st) (auto split: sum.splits)

lemma elapsed_after_append:
  "elapsed_after e (fs @ gs) = elapsed_after (elapsed_after e fs) gs"
  by (induction fs arbitrary: e) auto

text \<open>While no split is reached the croppers stay and receive every frame.\<close>

lemma consume_quiet:
  assumes "\<forall>(n, v) \<in> set (croppers st). is_alive (vw_t v)"
    and "\<forall>(fp, f) \<in> set fs. fp \<noteq> 0"
    and "no_split_reached (elapsed_seconds st) (opt_splits st) fs"
  shows "consume fs st =
    Inr (st\<lparr>elapsed_seconds := elapsed_after (elapsed_seconds st) fs,
            croppers := map (\<lambda>(n, v). (n, fed (map snd fs) v)) (croppers st)\<rparr>)"
  using assms
proof (induction fs arbitrary: st)
  case Nil
  have "map (\<lambda>(n, v). (n, v)) (croppers st) = croppers st"
    by (induction "croppers st") auto
  then show ?case by simp
next
  case (Cons a fs)
  obtain fp f where a: "a = (fp, f)" by (cases a)
  let ?st1 = "st\<lparr>elapsed_seconds := elapsed_seconds st + 1 / fp,
      croppers := map (\<lambda>(n, v). (n, fed [f] v)) (croppers st)\<rparr>"
  from Cons.prems a have fp: "fp \<noteq> 0" by simp
  from Cons.prems(3) a have quiet: "case opt_splits st of [] \<Rightarrow> True
      | ts # _ \<Rightarrow> elapsed_seconds st + 1 / fp < seconds ts"
    and rest: "no_split_reached (elapsed_seconds st + 1 / fp) (opt_splits st) fs"
    by simp_all
  from quiet fp have "process_frame fp f st = Inr ?st1"
    using map_sinks_write [OF Cons.prems(1), of f]
    by (auto simp: process_frame_def Let_def split: list.splits)
  moreover have "consume fs ?st1 =
      Inr (?st1\<lparr>elapsed_seconds := elapsed_after (elapsed_seconds ?st1) fs,
                croppers := map (\<lambda>(n, v). (n, fed (map snd fs) v)) (croppers ?st1)\<rparr>)"
    using Cons.prems rest a by (intro Cons.IH) auto
  ultimately show ?case
    by (simp add: a fed_fed comp_def case_prod_unfold)
qed

lemma process_frame_rotating:
  assumes "\<forall>(n, v) \<in> set (croppers st). is_alive (vw_t v)"
    and "length (opt_fourcc st) = 4"
    and "fp \<noteq> 0"
    and "opt_splits st = ts # tss"
    and "seconds ts \<le> elapsed_seconds st + 1 / fp"
  shows "process_frame fp f st =
    Inr (st\<lparr>elapsed_seconds := elapsed_seconds st + 1 / fp,
            finished := finished st @ [map (\<lambda>(n, v). (n, drained v)) (croppers st)],
            j := j st + 1,
            croppers := map (\<lambda>entry.
                case fresh_cropper (opt_fourcc st) (opt_fps st) (opt_color st)
                       (part_prefix (j st + 1)) entry of
                  (n, v) \<Rightarrow> (n, fed [f] v)) (crops_table st),
            opt_splits := tss\<rparr>)"
proof -
  let ?st1 = "st\<lparr>elapsed_seconds := elapsed_seconds st + 1 / fp\<rparr>"
  let ?fresh = "fresh_cropper (opt_fourcc st) (opt_fps st) (opt_color st) (part_prefix (j st + 1))"
  have "rotate ?st1 =
      Inr (?st1\<lparr>finished := finished ?st1 @ [map (\<lambda>(n, v). (n, drained v)) (croppers ?st1)],
            j := j ?st1 + 1,
            croppers := map (fresh_cropper (opt_fourcc ?st1) (opt_fps ?st1) (opt_color ?st1)
                              (part_prefix (j ?st1 + 1))) (crops_table ?st1),
            opt_splits := tl (opt_splits ?st1)\<rparr>)"
    using assms(1,2) by (intro rotate_result) auto
  moreover have "map_sinks (call_write f) (map ?fresh (crops_table st))
      = Inr (map (\<lambda>(n, v). (n, fed [f] v)) (map ?fresh (crops_table st)))"
    by (rule map_sinks_write [OF fresh_cropper_alive])
  ultimately show ?thesis
    using assms(3,4,5)
    by (simp add: process_frame_def Let_def comp_def case_prod_unfold)
qed

lemma consume_rotating:
  assumes alive: "\<forall>(n, v) \<in> set (croppers st). is_alive (vw_t v)"
    and fourcc: "length (opt_fourcc st) = 4"
    and rates: "\<forall>(fp, f) \<in> set (pre @ (fpk, fk) # post). fp \<noteq> 0"
    and splits: "opt_splits st = ts # tss"
    and before: "no_split_reached (elapsed_seconds st) (ts # tss) pre"
    and reached: "seconds ts \<le> elapsed_after (elapsed_seconds st) (pre @ [(fpk, fk)])"
    and after: "no_split_reached (elapsed_after (elapsed_seconds st) (pre @ [(fpk, fk)])) tss post"
  shows "consume (pre @ (fpk, fk) # post) st =
    Inr (st\<lparr>elapsed_seconds := elapsed_after (elapsed_seconds st) (pre @ (fpk, fk) # post),
            finished := finished st
              @ [map (\<lambda>(n, v). (n, drained (fed (map snd pre) v))) (croppers st)],
            j := j st + 1,
            croppers := map (\<lambda>entry.
                case fresh_cropper (opt_fourcc st) (opt_fps st) (opt_color st)
                       (part_prefix (j st + 1)) entry of
                  (n, v) \<Rightarrow> (n, fed (fk # map snd post) v)) (crops_table st),
            opt_splits := tss\<rparr>)"
proof -
  let ?e1 = "elapsed_after (elapsed_seconds st) pre"
  let ?fresh = "fresh_cropper (opt_fourcc st) (opt_fps st) (opt_color st) (part_prefix (j st + 1))"
  define st1 where "st1 = st\<lparr>elapsed_seconds := ?e1,
      croppers := map (\<lambda>(n, v). (n, fed (map snd pre) v)) (croppers st)\<rparr>"
  define st2 where "st2 = st1\<lparr>elapsed_seconds := elapsed_seconds st1 + 1 / fpk,
      finished := finished st1 @ [map (\<lambda>(n, v). (n, drained v)) (croppers st1)],
      j := j st1 + 1,
      croppers := map (\<lambda>entry.
          case fresh_cropper (opt_fourcc st1) (opt_fps st1) (opt_color st1)
                 (part_prefix (j st1 + 1)) entry of
            (n, v) \<Rightarrow> (n, fed [fk] v)) (crops_table st1),
      opt_splits := tss\<rparr>"
  have 1: "consume pre st = Inr st1"
    unfolding st1_def using alive rates before splits by (intro consume_quiet) auto
  from rates have fpk: "fpk \<noteq> 0" by simp
  have 2: "process_frame fpk fk st1 = Inr st2"
    unfolding st2_def
  proof (rule process_frame_rotating)
    show "\<forall>(n, v) \<in> set (croppers st1). is_alive (vw_t v)"
      using alive by (auto simp: st1_def)
    show "length (opt_fourcc st1) = 4"
      using fourcc by (simp add: st1_def)
    show "fpk \<noteq> 0" by (rule fpk)
    show "opt_splits st1 = ts # tss"
      using splits by (simp add: st1_def)
    show "seconds ts \<le> elapsed_seconds st1 + 1 / fpk"
      using reached by (simp add: st1_def elapsed_after_append)
  qed
  have 3: "consume post st2 =
      Inr (st2\<lparr>elapsed_seconds := elapsed_after (elapsed_seconds st2) post,
            croppers := map (\<lambda>(n, v). (n, fed (map snd post) v)) (croppers st2)\<rparr>)"
  proof (rule consume_quiet)
    show "\<forall>(n, v) \<in> set (croppers st2). is_alive (vw_t v)"
      by (auto simp: st2_def fresh_cropper_def)
    show "\<forall>(fp, f) \<in> set post. fp \<noteq> 0"
      using rates by auto
    show "no_split_reached (elapsed_seconds st2) (opt_splits st2) post"
      using after by (simp add: st2_def st1_def elapsed_after_append)
  qed
  have "consume (pre @ (fpk, fk) # post) st = consume post st2"
    using 1 2 by (simp add: consume_append)
  with 3 show ?thesis
    by (simp add: st2_def st1_def elapsed_after_append comp_def case_prod_unfold fed_fed)
qed

lemma received_simps [simp]:
  "received (drained v) = received v"
  "received (fed fs v) = received v @ map (queued_frame v) fs"
  by (simp_all add: received_def drained_def)

lemma fresh_cropper_received:
  "fresh_cropper fourcc f col prefix (fname, r) = (n, v) \<Longrightarrow>
     n = prefix @ fname \<and> received v = [] \<and> queued_frame v = crop_frame r \<and> is_alive (vw_t v)"
  by (cases r) (auto simp: fresh_cropper_def received_def queued_frame_def)

text \<open>
  C5.  Take \<open>main\<close> in its frame loop with running croppers and a next split \<open>ts\<close>, and
  let it consume the frames \<open>pre\<close>, then \<open>fk\<close>, then \<open>post\<close>, where \<open>elapsed_seconds\<close>
  (which grows by \<open>1 / fps\<close> with each frame) stays below \<open>ts\<close> throughout \<open>pre\<close>, has
  reached it at \<open>fk\<close>, and does not reach the split after \<open>ts\<close> during \<open>post\<close>.  Then the
  rotation is made at \<open>fk\<close> and nowhere else: the part number goes from \<open>j\<close> to \<open>j + 1\<close>
  and the split is dropped; the old croppers have received exactly the frames of \<open>pre\<close>
  on top of what they had, and they are stopped, drained and released, listed as a
  finished group; the new croppers, named with \<open>part<j+1>_\<close>, are running and have
  received exactly \<open>fk\<close> and the frames of \<open>post\<close>.  If the old croppers had received
  nothing before, the frame counts of the old and the new group add up to the number of
  frames consumed.
\<close>

theorem rotation_at_first_frame_reaching_split:
  assumes "\<forall>(n, v) \<in> set (croppers st). is_alive (vw_t v)"
    and "length (opt_fourcc st) = 4"
    and "\<forall>(fp, f) \<in> set (pre @ (fpk, fk) # post). fp \<noteq> 0"
    and "opt_splits st = ts # tss"
    and "no_split_reached (elapsed_seconds st) (ts # tss) pre"
    and "seconds ts \<le> elapsed_after (elapsed_seconds st) (pre @ [(fpk, fk)])"
    and "no_split_reached (elapsed_after (elapsed_seconds st) (pre @ [(fpk, fk)])) tss post"
  shows "\<exists>st' old.
      consume (pre @ (fpk, fk) # post) st = Inr st'
      \<and> j st' = j st + 1 \<and> opt_splits st' = tss
      \<and> finished st' = finished st @ [old]
      \<and> list_all (\<lambda>(n, v). vw_released v \<and> vw_Q v = [] \<and> vw_t v = Finished) old
      \<and> map (\<lambda>(n, v). (n, received v)) old
          = map (\<lambda>(n, v). (n, received v @ map (queued_frame v) (map snd pre))) (croppers st)
      \<and> list_all (\<lambda>(n, v). is_alive (vw_t v)) (croppers st')
      \<and> map (\<lambda>(n, v). (n, received v)) (croppers st')
          = map (\<lambda>(fname, r). (part_prefix (j st + 1) @ fname,
                                map (crop_frame r) (fk # map snd post))) (crops_table st)
      \<and> ((\<forall>(n, v) \<in> set (croppers st). received v = []) \<longrightarrow>
           (\<forall>(n, c) \<in> set (group_counts old). \<forall>(n', c') \<in> set (group_counts (croppers st')).
              c + c' = length (pre @ (fpk, fk) # post)))"
proof -
  let ?fresh = "fresh_cropper (opt_fourcc st) (opt_fps st) (opt_color st) (part_prefix (j st + 1))"
  let ?old = "map (\<lambda>(n, v). (n, drained (fed (map snd pre) v))) (croppers st)"
  let ?new = "map (\<lambda>entry. case ?fresh entry of (n, v) \<Rightarrow> (n, fed (fk # map snd post) v))
      (crops_table st)"
  let ?st' = "st\<lparr>elapsed_seconds := elapsed_after (elapsed_seconds st) (pre @ (fpk, fk) # post),
      finished := finished st @ [?old], j := j st + 1, croppers := ?new, opt_splits := tss\<rparr>"
  have run: "consume (pre @ (fpk, fk) # post) st = Inr ?st'"
    using assms by (rule consume_rotating)
  have old_closed: "list_all (\<lambda>(n, v). vw_released v \<and> vw_Q v = [] \<and> vw_t v = Finished) ?old"
    by (auto simp: list_all_iff drained_def)
  have old_received: "map (\<lambda>(n, v). (n, received v)) ?old
      = map (\<lambda>(n, v). (n, received v @ map (queued_frame v) (map snd pre))) (croppers st)"
    by (auto simp: comp_def case_prod_unfold)
  have new_alive: "list_all (\<lambda>(n, v). is_alive (vw_t v)) ?new"
    by (auto simp: list_all_iff fresh_cropper_def)
  have new_received: "map (\<lambda>(n, v). (n, received v)) ?new
      = map (\<lambda>(fname, r). (part_prefix (j st + 1) @ fname,
                            map (crop_frame r) (fk # map snd post))) (crops_table st)"
    unfolding map_map
  proof (rule map_cong [OF refl])
    fix entry
    assume "entry \<in> set (crops_table st)"
    obtain fname r where entry: "entry = (fname, r)" by (cases entry)
    obtain n v where nv: "?fresh (fname, r) = (n, v)" by (cases "?fresh (fname, r)")
    from fresh_cropper_received [OF nv] nv
    show "((\<lambda>(n, v). (n, received v)) \<circ>
          (\<lambda>entry. case ?fresh entry of (n, v) \<Rightarrow> (n, fed (fk # map snd post) v))) entry
        = (case entry of (fname, r) \<Rightarrow>
            (part_prefix (j st + 1) @ fname, map (crop_frame r) (fk # map snd post)))"
      by (simp add: entry)
  qed
  have counts: "\<forall>(n, c) \<in> set (group_counts ?old). \<forall>(n', c') \<in> set (group_counts ?new).
      c + c' = length (pre @ (fpk, fk) # post)"
    if fresh: "\<forall>(n, v) \<in> set (croppers st). received v = []"
  proof -
    have "c = length pre" if "(n, c) \<in> set (group_counts ?old)" for n c
      using that fresh by (auto simp: group_counts_def)
    moreover have "c' = 1 + length post" if "(n', c') \<in> set (group_counts ?new)" for n' c'
    proof -
      from that have "(n', c') \<in> set (map (\<lambda>(n, fs). (n, length fs))
          (map (\<lambda>(n, v). (n, received v)) ?new))"
        by (simp add: group_counts_def comp_def case_prod_unfold)
      then show ?thesis
        unfolding new_received by auto
    qed
    ultimately show ?thesis by auto
  qed
  from run old_closed old_received new_alive new_received counts
  have "consume (pre @ (fpk, fk) # post) st = Inr ?st'
      \<and> j ?st' = j st + 1 \<and> opt_splits ?st' = tss
      \<and> finished ?st' = finished st @ [?old]
      \<and> list_all (\<lambda>(n, v). vw_released v \<and> vw_Q v = [] \<and> vw_t v = Finished) ?old
      \<and> map (\<lambda>(n, v). (n, received v)) ?old
          = map (\<lambda>(n, v). (n, received v @ map (queued_frame v) (map snd pre))) (croppers st)
      \<and> list_all (\<lambda>(n, v). is_alive (vw_t v)) (croppers ?st')
      \<and> map (\<lambda>(n, v). (n, received v)) (croppers ?st')
          = map (\<lambda>(fname, r). (part_prefix (j st + 1) @ fname,
                                map (crop_frame r) (fk # map snd post))) (crops_table st)
      \<and> ((\<forall>(n, v) \<in> set (croppers st). received v = []) \<longrightarrow>
           (\<forall>(n, c) \<in> set (group_counts ?old). \<forall>(n', c') \<in> set (group_counts (croppers ?st')).
              c + c' = length (pre @ (fpk, fk) # post)))"
    by simp
  then show ?thesis by blast
qed

lemma group_counts_received:
  "group_counts g = map (\<lambda>(n, fs). (n, length fs)) (map (\<lambda>(n, v). (n, received v)) g)"
  by (simp add: group_counts_def comp_def case_prod_unfold)

theorem rotation_at_first_frame_reaching_split_witness:
  "start_run one_tube ''MJPG'' 25 True \<lparr>hours = 0, minutes = 0, seconds = 0\<rparr> [split_at_100ms]
     = Inr one_tube_started
   \<and> (\<exists>st' old. consume four_frames one_tube_started = Inr st'
         \<and> j st' = 2 \<and> opt_splits st' = [] \<and> finished st' = [old]
         \<and> map (\<lambda>(n, v). (n, received v)) old = [(''part1_tube1.avi'', [[[1]], [[2]]])]
         \<and> map (\<lambda>(n, v). (n, received v)) (croppers st')
             = [(''part2_tube1.avi'', [[[3]], [[4]]])]
         \<and> group_counts old = [(''part1_tube1.avi'', 2)]
         \<and> group_counts (croppers st') = [(''part2_tube1.avi'', 2)])"
proof -
  let ?pre = "[(25, [[1]]), (25, [[2]])] :: (py_float \<times> frame) list"
  let ?post = "[(25, [[4]])] :: (py_float \<times> frame) list"
  have start: "start_run one_tube ''MJPG'' 25 True \<lparr>hours = 0, minutes = 0, seconds = 0\<rparr>
      [split_at_100ms] = Inr one_tube_started"
    by (simp add: start_run_def one_tube_def one_tube_started_def VideoCropper_init_result
        call_start_def fresh_cropper_def)
  have frames: "four_frames = ?pre @ (25, [[3]]) # ?post"
    by (simp add: four_frames_def)
  have a1: "\<forall>(n, v) \<in> set (croppers one_tube_started). is_alive (vw_t v)"
    by (simp add: one_tube_started_def fresh_cropper_def)
  have a2: "length (opt_fourcc one_tube_started) = 4"
    by (simp add: one_tube_started_def)
  have a3: "\<forall>(fp, f) \<in> set (?pre @ (25, [[3]]) # ?post). fp \<noteq> 0"
    by simp
  have a4: "opt_splits one_tube_started = split_at_100ms # []"
    by (simp add: one_tube_started_def)
  have a5: "no_split_reached (elapsed_seconds one_tube_started) (split_at_100ms # []) ?pre"
    by (simp add: one_tube_started_def split_at_100ms_def)
  have a6: "seconds split_at_100ms
      \<le> elapsed_after (elapsed_seconds one_tube_started) (?pre @ [(25, [[3]])])"
    by (simp add: one_tube_started_def split_at_100ms_def)
  have a7: "no_split_reached
      (elapsed_after (elapsed_seconds one_tube_started) (?pre @ [(25, [[3]])])) [] ?post"
    by simp
  have fresh: "\<forall>(n, v) \<in> set (croppers one_tube_started). received v = []"
    by (simp add: one_tube_started_def fresh_cropper_def received_def)
  from rotation_at_first_frame_reaching_split [OF a1 a2 a3 a4 a5 a6 a7]
  obtain st' old where
    run: "consume (?pre @ (25, [[3]]) # ?post) one_tube_started = Inr st'"
    and fields: "j st' = j one_tube_started + 1" "opt_splits st' = []"
      "finished st' = finished one_tube_started @ [old]"
    and old: "map (\<lambda>(n, v). (n, received v)) old
      = map (\<lambda>(n, v). (n, received v @ map (queued_frame v) (map snd ?pre)))
          (croppers one_tube_started)"
    and new: "map (\<lambda>(n, v). (n, received v)) (croppers st')
      = map (\<lambda>(fname, r). (part_prefix (j one_tube_started + 1) @ fname,
                            map (crop_frame r) ([[3]] # map snd ?post)))
          (crops_table one_tube_started)"
    by blast
  have crop: "crop_frame (0, 0, 1, 1) [[p]] = [[p]]" for p
    by (simp add: crop_frame_def py_slice_def)
  have prefix: "part_prefix (Suc (Suc 0)) = ''part2_''"
    by (simp add: part_prefix_def str_nat_small digit_char_def)
  from old have old': "map (\<lambda>(n, v). (n, received v)) old
      = [(''part1_tube1.avi'', [[[1]], [[2]]])]"
    by (simp add: one_tube_started_def fresh_cropper_def received_def queued_frame_def crop)
  from new have new': "map (\<lambda>(n, v). (n, received v)) (croppers st')
      = [(''part2_tube1.avi'', [[[3]], [[4]]])]"
    by (simp add: one_tube_started_def one_tube_def crop prefix)
  from fields have fields': "j st' = 2" "finished st' = [old]"
    by (simp_all add: one_tube_started_def)
  have counts: "group_counts old = [(''part1_tube1.avi'', 2)]"
    "group_counts (croppers st') = [(''part2_tube1.avi'', 2)]"
    unfolding group_counts_received old' new' by simp_all
  show ?thesis
    unfolding frames
  proof (intro conjI exI)
    show "consume (?pre @ (25, [[3]]) # ?post) one_tube_started = Inr st'"
      by (rule run)
    show "finished st' = [old]"
      by (rule fields')
  qed (use start fields(2) fields'(1) old' new' counts in simp_all)
qed

end
